theory Spec2Isabelle
  imports Main "HOL-Library.Word"
begin

unbundle bit_operations_syntax

section \<open>Bytes, strings and errors\<close>

text \<open>
  A Go \<^verbatim>\<open>string\<close> and a Go \<^verbatim>\<open>[]byte\<close> are both sequences of bytes; both are
  modelled as \<^typ>\<open>string\<close> (a list of 8-bit characters).
\<close>

abbreviation nl :: char where "nl \<equiv> CHR 0x0A"
abbreviation cr :: char where "cr \<equiv> CHR 0x0D"
abbreviation dq :: char where "dq \<equiv> CHR 0x22"
abbreviation comma :: char where "comma \<equiv> CHR 0x2C"

text \<open>The three parse errors of \<^verbatim>\<open>encoding/csv\<close> that its reader can return
  under the default settings.\<close>

datatype csv_error = ErrFieldCount | ErrBareQuote | ErrQuote

text \<open>
  Go error values. \<open>EOF\<close> is \<^verbatim>\<open>io.EOF\<close>, \<open>ErrUnexpectedEOF\<close> is
  \<^verbatim>\<open>io.ErrUnexpectedEOF\<close>, \<open>OSError\<close> is an error reported by the operating system or by
  the bufio/gzip layers, \<open>DecodeError\<close> and \<open>EncodeError\<close> are the marshalers' failures,
  \<open>ParseError\<close> is a \<^verbatim>\<open>*csv.ParseError\<close>. The last three are the values built by
  \<^verbatim>\<open>errors.Errorf\<close>: a format with a path and a cause (\<^verbatim>\<open>"... '%s', %v"\<close>), a format
  with a cause only (\<^verbatim>\<open>"..., %v"\<close>), and a format with two numbers (\<^verbatim>\<open>"... %d ... %d"\<close>).
\<close>

datatype error =
    EOF
  | ErrUnexpectedEOF
  | OSError string
  | DecodeError string
  | EncodeError string
  | ParseError csv_error
  | Errorf string string error
  | Errorf0 string error
  | ErrorfN string nat nat

text \<open>\<^verbatim>\<open>strings.HasSuffix\<close>.\<close>

definition HasSuffix :: "string \<Rightarrow> string \<Rightarrow> bool" where
  "HasSuffix s suffix =
     (length suffix \<le> length s \<and> drop (length s - length suffix) s = suffix)"

section \<open>Value transforms (scan.go, csv\_files.go)\<close>

text \<open>
  \<^verbatim>\<open>EmptyValues\<close> is a Go map from string to bool; looking up a missing key gives
  \<^verbatim>\<open>false\<close>.
\<close>

definition EmptyValues :: "string \<rightharpoonup> bool" where
  "EmptyValues = map_of
     [(''n/a'', True), (''N/A'', True), (''N/a'', True),
      (''null'', True), (''NULL'', True), (''Null'', True),
      (''nil'', True), (''NIL'', True), (''Nil'', True),
      (''nan'', True), (''NaN'', True), (''Nan'', True),
      (''#'', True), ('''', True)]"

definition PandasFriendly :: "string \<Rightarrow> string" where
  "PandasFriendly v =
     (if (case EmptyValues v of Some b \<Rightarrow> b | None \<Rightarrow> False) then ''#'' else v)"

definition RemoveHash :: "string \<Rightarrow> string" where
  "RemoveHash v = (if v = ''#'' then '''' else v)"

text \<open>
  \<^verbatim>\<open>zipValues\<close>: the outer loop runs over the values and appends to \<^verbatim>\<open>arr\<close>, the inner
  loop runs over the processors and overwrites \<^verbatim>\<open>v\<close>.
\<close>

definition zipValues :: "(string \<Rightarrow> string) list \<Rightarrow> string list \<Rightarrow> string list" where
  "zipValues processors list =
     foldl (\<lambda>arr v. arr @ [foldl (\<lambda>v p. p v) v processors]) [] list"

text \<open>
  \<^verbatim>\<open>strings.TrimSpace\<close> of the standard library, which the tests pass as a transform. The
  model removes leading and trailing ASCII white space (tab, line feed, vertical tab, form
  feed, carriage return, space); it agrees with the library on every string whose first and
  last runes are ASCII.
\<close>

definition isSpace :: "char \<Rightarrow> bool" where
  "isSpace c = (c = CHR 0x09 \<or> c = nl \<or> c = CHR 0x0B \<or> c = CHR 0x0C \<or> c = cr \<or> c = CHR 0x20)"

definition TrimSpace :: "string \<Rightarrow> string" where
  "TrimSpace s = rev (dropWhile isSpace (rev (dropWhile isSpace s)))"

section \<open>The delimited-text library (encoding/csv, default settings)\<close>

text \<open>
  The repository delegates quoting and parsing to Go's \<^verbatim>\<open>encoding/csv\<close>. Its writer and
  reader are modelled here as they behave with the settings the repository uses (comma
  \<^verbatim>\<open>,\<close>, no comment character, \<^verbatim>\<open>UseCRLF\<close>, \<^verbatim>\<open>LazyQuotes\<close> and
  \<^verbatim>\<open>TrimLeadingSpace\<close> off, \<^verbatim>\<open>FieldsPerRecord\<close> initially 0).
\<close>

subsection \<open>Writer\<close>

text \<open>The UTF-8 encodings of the runes for which \<^verbatim>\<open>unicode.IsSpace\<close> holds.\<close>

definition spaceRunes :: "string list" where
  "spaceRunes =
     [[CHR 0x09], [CHR 0x0A], [CHR 0x0B], [CHR 0x0C], [CHR 0x0D], [CHR 0x20],
      [CHR 0xC2, CHR 0x85], [CHR 0xC2, CHR 0xA0], [CHR 0xE1, CHR 0x9A, CHR 0x80],
      [CHR 0xE2, CHR 0x80, CHR 0x80], [CHR 0xE2, CHR 0x80, CHR 0x81],
      [CHR 0xE2, CHR 0x80, CHR 0x82], [CHR 0xE2, CHR 0x80, CHR 0x83],
      [CHR 0xE2, CHR 0x80, CHR 0x84], [CHR 0xE2, CHR 0x80, CHR 0x85],
      [CHR 0xE2, CHR 0x80, CHR 0x86], [CHR 0xE2, CHR 0x80, CHR 0x87],
      [CHR 0xE2, CHR 0x80, CHR 0x88], [CHR 0xE2, CHR 0x80, CHR 0x89],
      [CHR 0xE2, CHR 0x80, CHR 0x8A], [CHR 0xE2, CHR 0x80, CHR 0xA8],
      [CHR 0xE2, CHR 0x80, CHR 0xA9], [CHR 0xE2, CHR 0x80, CHR 0xAF],
      [CHR 0xE2, CHR 0x81, CHR 0x9F], [CHR 0xE3, CHR 0x80, CHR 0x80]]"

definition fieldNeedsQuotes :: "string \<Rightarrow> bool" where
  "fieldNeedsQuotes field =
     (if field = [] then False
      else if field = [CHR 0x5C, CHR 0x2E] then True
      else if (\<exists>c \<in> set field. c = nl \<or> c = cr \<or> c = dq \<or> c = comma) then True
      else (\<exists>p \<in> set spaceRunes. take (length p) field = p))"

definition csvField :: "string \<Rightarrow> string" where
  "csvField field =
     (if \<not> fieldNeedsQuotes field then field
      else dq # concat (map (\<lambda>c. if c = dq then [dq, dq] else [c]) field) @ [dq])"

fun csvJoin :: "string list \<Rightarrow> string" where
  "csvJoin [] = []"
| "csvJoin [f] = f"
| "csvJoin (f # g # fs) = f @ comma # csvJoin (g # fs)"

text \<open>The bytes that \<^verbatim>\<open>csv.Writer.Write(record)\<close> emits.\<close>

definition csvLine :: "string list \<Rightarrow> string" where
  "csvLine record = csvJoin (map csvField record) @ [nl]"

subsection \<open>Reader\<close>

text \<open>
  The reader works line by line: a line ends at a line feed, a carriage return before the
  line feed is dropped, and so is a carriage return that ends the input. \<open>csvScan\<close> parses
  the fields of one record from the remaining input; its mode says whether it is inside an
  unquoted field, inside a quoted field, or just after the closing quote of a quoted field.
  It returns the parse error (if any), the fields completed, and the input that remains. On
  a parse error the rest of the current line is discarded.
\<close>

datatype csv_mode = Unquoted | Quoted | AfterQuote

definition skipLine :: "string \<Rightarrow> string" where
  "skipLine s = drop 1 (dropWhile (\<lambda>c. c \<noteq> nl) s)"

fun csvScan :: "csv_mode \<Rightarrow> string \<Rightarrow> string list \<Rightarrow> string \<Rightarrow>
    (csv_error option \<times> string list) \<times> string" where
  "csvScan Unquoted cur fs [] = ((None, fs @ [cur]), [])"
| "csvScan Quoted cur fs [] = ((Some ErrQuote, fs), [])"
| "csvScan AfterQuote cur fs [] = ((None, fs @ [cur]), [])"
| "csvScan m cur fs (c # r) =
     (if c = cr \<and> r = [] then csvScan m cur fs []
      else if c = cr \<and> hd r = nl then
        (case m of
           Quoted \<Rightarrow> csvScan Quoted (cur @ [nl]) fs (tl r)
         | _ \<Rightarrow> ((None, fs @ [cur]), tl r))
      else
        (case m of
           Unquoted \<Rightarrow>
             if c = nl then ((None, fs @ [cur]), r)
             else if c = comma then
               (if r \<noteq> [] \<and> hd r = dq then csvScan Quoted [] (fs @ [cur]) (tl r)
                else csvScan Unquoted [] (fs @ [cur]) r)
             else if c = dq then ((Some ErrBareQuote, fs), skipLine r)
             else csvScan Unquoted (cur @ [c]) fs r
         | Quoted \<Rightarrow>
             if c = dq then csvScan AfterQuote cur fs r
             else csvScan Quoted (cur @ [c]) fs r
         | AfterQuote \<Rightarrow>
             if c = dq then csvScan Quoted (cur @ [dq]) fs r
             else if c = comma then
               (if r \<noteq> [] \<and> hd r = dq then csvScan Quoted [] (fs @ [cur]) (tl r)
                else csvScan Unquoted [] (fs @ [cur]) r)
             else if c = nl then ((None, fs @ [cur]), r)
             else ((Some ErrQuote, fs), skipLine r)))"

text \<open>
  The start of a record: empty lines are skipped; the end of the input is \<open>None\<close>
  (the reader returns \<^verbatim>\<open>io.EOF\<close>).
\<close>

fun csvRecord :: "string \<Rightarrow> ((csv_error option \<times> string list) \<times> string) option" where
  "csvRecord [] = None"
| "csvRecord (c # r) =
     (if c = nl then csvRecord r
      else if c = cr \<and> r = [] then None
      else if c = cr \<and> hd r = nl then csvRecord (tl r)
      else if c = dq then Some (csvScan Quoted [] [] r)
      else Some (csvScan Unquoted [] [] (c # r)))"

text \<open>
  The state of a \<^verbatim>\<open>csv.Reader\<close>: the input not yet consumed and the field
  \<^verbatim>\<open>FieldsPerRecord\<close>, which the first record sets and the later ones are checked against.
\<close>

record csvReader =
  csv_pending :: string
  FieldsPerRecord :: nat

text \<open>\<^verbatim>\<open>csv.Reader.Read\<close>: the record and the error, and the reader after the call.\<close>

definition csvRead :: "csvReader \<Rightarrow> (string list \<times> error option) \<times> csvReader" where
  "csvRead r =
     (case csvRecord (csv_pending r) of
        None \<Rightarrow> (([], Some EOF), r\<lparr>csv_pending := []\<rparr>)
      | Some ((err, dst), rest) \<Rightarrow>
          if FieldsPerRecord r > 0 then
            (if length dst \<noteq> FieldsPerRecord r \<and> err = None
             then ((dst, Some (ParseError ErrFieldCount)), r\<lparr>csv_pending := rest\<rparr>)
             else ((dst, map_option ParseError err), r\<lparr>csv_pending := rest\<rparr>))
          else
            ((dst, map_option ParseError err),
             r\<lparr>csv_pending := rest, FieldsPerRecord := length dst\<rparr>))"

section \<open>The file system and the environment\<close>

text \<open>
  The state of the world is the content of the files; the other fields are the answers of
  the environment, which no operation changes: whether creating or opening a path fails,
  whether the gzip header of a path is rejected, how the byte stream of a path ends
  (\<^verbatim>\<open>io.EOF\<close> for an intact file, another error for a stream that breaks off), and
  whether the \<open>k\<close>-th write through a writer on a path fails.

  The compression layer is an external, reversible codec: the content of a \<^verbatim>\<open>.gz\<close> path
  is the byte stream that the writer was given and that a reader is delivered. The buffers
  between a codec and the file are not modelled: what is written is in the file at once
  (every writer of Split and Join is closed before they return, and they discard the result
  of \<^verbatim>\<open>Close\<close>).
\<close>

record world =
  files :: "string \<rightharpoonup> string"
  create_err :: "string \<Rightarrow> error option"
  open_err :: "string \<Rightarrow> error option"
  gzip_err :: "string \<Rightarrow> error option"
  read_final :: "string \<Rightarrow> error"
  write_err :: "string \<Rightarrow> nat \<Rightarrow> error option"

text \<open>A world in which nothing fails, holding the given files.\<close>

definition quiet :: "(string \<rightharpoonup> string) \<Rightarrow> world" where
  "quiet fs = \<lparr>files = fs, create_err = (\<lambda>_. None), open_err = (\<lambda>_. None),
     gzip_err = (\<lambda>_. None), read_final = (\<lambda>_. EOF), write_err = (\<lambda>_ _. None)\<rparr>"

text \<open>\<^verbatim>\<open>os.Create\<close> truncates or creates the file.\<close>

definition osCreate :: "string \<Rightarrow> world \<Rightarrow> error option \<times> world" where
  "osCreate path w =
     (case create_err w path of
        Some e \<Rightarrow> (Some e, w)
      | None \<Rightarrow> (None, w\<lparr>files := (files w)(path \<mapsto> [])\<rparr>))"

text \<open>\<^verbatim>\<open>os.Open\<close> gives the content to read, or fails.\<close>

definition osOpen :: "string \<Rightarrow> world \<Rightarrow> error + string" where
  "osOpen path w =
     (case files w path of
        None \<Rightarrow> Inl (OSError ''no such file or directory'')
      | Some c \<Rightarrow> (case open_err w path of Some e \<Rightarrow> Inl e | None \<Rightarrow> Inr c))"

text \<open>\<^verbatim>\<open>os.Remove\<close>; every caller discards its result.\<close>

definition osRemove :: "string \<Rightarrow> world \<Rightarrow> world" where
  "osRemove path w = w\<lparr>files := (files w)(path := None)\<rparr>"

text \<open>
  One \<^verbatim>\<open>Write\<close> call on the stream stack of a writer bound to \<open>path\<close> that has made
  \<open>k\<close> calls before: it fails as the environment says, or appends the bytes. The result is
  the count of bytes written and the error; by the contract of \<^verbatim>\<open>io.Writer\<close> the count is
  the full length when there is no error.
\<close>

definition fwrite ::
    "string \<Rightarrow> nat \<Rightarrow> string \<Rightarrow> world \<Rightarrow> (nat \<times> error option) \<times> world" where
  "fwrite path k bytes w =
     (case write_err w path k of
        Some e \<Rightarrow> ((0, Some e), w)
      | None \<Rightarrow>
          ((length bytes, None),
           case files w path of
             None \<Rightarrow> w
           | Some c \<Rightarrow> w\<lparr>files := (files w)(path \<mapsto> c @ bytes)\<rparr>))"

section \<open>Delimited row codec (csv\_files.go)\<close>

text \<open>
  \<^verbatim>\<open>csvFileWriter\<close>: the path its descriptor is bound to, the number of writes made, and
  the value processors. A variadic parameter that received no argument is \<^verbatim>\<open>nil\<close>,
  modelled as the empty list.
\<close>

record csvFileWriter =
  cw_path :: string
  cw_count :: nat
  cw_valueProcessors :: "(string \<Rightarrow> string) list"

definition NewCsvFile ::
    "string \<Rightarrow> (string \<Rightarrow> string) list \<Rightarrow> world \<Rightarrow> (error + csvFileWriter) \<times> world" where
  "NewCsvFile filePath valueProcessors w =
     (case osCreate filePath w of
        (Some err, w') \<Rightarrow> (Inl (Errorf ''file create error'' filePath err), w')
      | (None, w') \<Rightarrow>
          (Inr \<lparr>cw_path = filePath, cw_count = 0, cw_valueProcessors = valueProcessors\<rparr>, w'))"

text \<open>\<^verbatim>\<open>w.csvw.Write(record)\<close>: the library encodes the record and writes the line.\<close>

definition csvw_Write ::
    "csvFileWriter \<Rightarrow> string list \<Rightarrow> world \<Rightarrow> error option \<times> csvFileWriter \<times> world" where
  "csvw_Write wr record w =
     (case fwrite (cw_path wr) (cw_count wr) (csvLine record) w of
        ((n, err), w') \<Rightarrow> (err, wr\<lparr>cw_count := cw_count wr + 1\<rparr>, w'))"

definition csvFileWriter_Write ::
    "csvFileWriter \<Rightarrow> string list \<Rightarrow> world \<Rightarrow> error option \<times> csvFileWriter \<times> world" where
  "csvFileWriter_Write wr values w =
     (if cw_valueProcessors wr \<noteq> []
      then csvw_Write wr (zipValues (cw_valueProcessors wr) values) w
      else csvw_Write wr values w)"

record csvFileReader =
  csvr :: csvReader
  cr_valueProcessors :: "(string \<Rightarrow> string) list"

definition CsvFileReader ::
    "string \<Rightarrow> string \<Rightarrow> (string \<Rightarrow> string) list \<Rightarrow> world \<Rightarrow> error + csvFileReader" where
  "CsvFileReader name content valueProcessors w =
     (let r = \<lparr>csvr = \<lparr>csv_pending = content, FieldsPerRecord = 0\<rparr>,
                cr_valueProcessors = valueProcessors\<rparr>
      in if HasSuffix name ''.gz''
         then (case gzip_err w name of
                 Some err \<Rightarrow> Inl (Errorf ''gzip read error in'' name err)
               | None \<Rightarrow> Inr r)
         else Inr r)"

definition OpenCsvFile ::
    "string \<Rightarrow> (string \<Rightarrow> string) list \<Rightarrow> world \<Rightarrow> error + csvFileReader" where
  "OpenCsvFile filePath valueProcessors w =
     (case osOpen filePath w of
        Inl err \<Rightarrow> Inl (Errorf ''file open error'' filePath err)
      | Inr content \<Rightarrow> CsvFileReader filePath content valueProcessors w)"

definition csvFileReader_Read ::
    "csvFileReader \<Rightarrow> (string list \<times> error option) \<times> csvFileReader" where
  "csvFileReader_Read r =
     (case csvRead (csvr r) of
        ((record, err), c) \<Rightarrow>
          if err \<noteq> None then (([], err), r\<lparr>csvr := c\<rparr>)
          else if cr_valueProcessors r \<noteq> []
          then ((zipValues (cr_valueProcessors r) record, None), r\<lparr>csvr := c\<rparr>)
          else ((record, None), r\<lparr>csvr := c\<rparr>))"

section \<open>Tearing a writer down (Close)\<close>



















section \<open>Byte sources (bufio.Reader, io.ReadFull)\<close>

text \<open>
  The byte stream a reader is opened on: the bytes not yet consumed, and how the stream
  ends once they are consumed (\<open>EOF\<close>, or the error the underlying reader reports from
  then on).
\<close>

record source =
  pending :: string
  final :: error

text \<open>
  \<^verbatim>\<open>bufio.Reader.ReadBytes(delim)\<close>: the bytes up to and including the first delimiter,
  or all remaining bytes together with the error that ended the stream.
\<close>

definition ReadBytes :: "char \<Rightarrow> source \<Rightarrow> (string \<times> error option) \<times> source" where
  "ReadBytes delim s =
     (if delim \<in> set (pending s)
      then ((takeWhile (\<lambda>c. c \<noteq> delim) (pending s) @ [delim], None),
            s\<lparr>pending := drop 1 (dropWhile (\<lambda>c. c \<noteq> delim) (pending s))\<rparr>)
      else ((pending s, Some (final s)), s\<lparr>pending := []\<rparr>))"

text \<open>
  \<^verbatim>\<open>io.ReadFull(r, buf)\<close> with \<open>n = len(buf)\<close>: the bytes read and the error. With
  \<open>n = 0\<close> it returns at once without reading. Otherwise the error is nil when \<open>n\<close>
  bytes were read, the stream's own error when no byte was read, and when some but fewer
  than \<open>n\<close> bytes were read it is \<^verbatim>\<open>io.ErrUnexpectedEOF\<close> in place of \<^verbatim>\<open>io.EOF\<close>.
\<close>

definition ReadFull :: "nat \<Rightarrow> source \<Rightarrow> (string \<times> error option) \<times> source" where
  "ReadFull n s =
     (if n = 0 then (([], None), s)
      else if n \<le> length (pending s)
      then ((take n (pending s), None), s\<lparr>pending := drop n (pending s)\<rparr>)
      else if pending s = [] then (([], Some (final s)), s)
      else ((pending s, Some (if final s = EOF then ErrUnexpectedEOF else final s)),
            s\<lparr>pending := []\<rparr>))"

section \<open>Line-delimited object codec (json\_files.go)\<close>

text \<open>
  The object marshaler is an external collaborator, taken as two parameters:
  \<open>marshal\<close> gives the canonical bytes of an object or an error, and
  \<open>unmarshal\<close> decodes bytes or gives an error. The code returns their errors
  unchanged, whatever they are.
\<close>

record jsonFileWriter =
  jw_path :: string
  jw_count :: nat

definition NewJsonFile :: "string \<Rightarrow> world \<Rightarrow> (error + jsonFileWriter) \<times> world" where
  "NewJsonFile filePath w =
     (case osCreate filePath w of
        (Some err, w') \<Rightarrow> (Inl (Errorf ''file create error'' filePath err), w')
      | (None, w') \<Rightarrow> (Inr \<lparr>jw_path = filePath, jw_count = 0\<rparr>, w'))"

definition jsonFileWriter_WriteRaw ::
    "jsonFileWriter \<Rightarrow> string \<Rightarrow> world \<Rightarrow> error option \<times> jsonFileWriter \<times> world" where
  "jsonFileWriter_WriteRaw wr message w =
     (case fwrite (jw_path wr) (jw_count wr) (message @ [nl]) w of
        ((n, err), w') \<Rightarrow> (err, wr\<lparr>jw_count := jw_count wr + 1\<rparr>, w'))"

text \<open>\<^verbatim>\<open>jsonWrite\<close>, through \<^verbatim>\<open>jsonFileWriter.Write\<close>.\<close>

definition jsonFileWriter_Write ::
    "('a \<Rightarrow> error + string) \<Rightarrow> jsonFileWriter \<Rightarrow> 'a \<Rightarrow> world \<Rightarrow>
     error option \<times> jsonFileWriter \<times> world" where
  "jsonFileWriter_Write marshal wr object w =
     (case marshal object of
        Inl err \<Rightarrow> (Some err, wr, w)
      | Inr jsonBin \<Rightarrow>
          (case fwrite (jw_path wr) (jw_count wr) (jsonBin @ [nl]) w of
             ((n, err), w') \<Rightarrow> (err, wr\<lparr>jw_count := jw_count wr + 1\<rparr>, w')))"

text \<open>
  \<^verbatim>\<open>jsonFileReader\<close> and \<^verbatim>\<open>jsonStreamReader\<close> hold a buffered source and
  \<^verbatim>\<open>lastErr\<close>; their \<^verbatim>\<open>ReadRaw\<close> and \<^verbatim>\<open>Read\<close> methods have the same bodies.
\<close>

record jsonFileReader =
  jr_src :: source
  lastErr :: "error option"

definition JsonFile :: "string \<Rightarrow> string \<Rightarrow> world \<Rightarrow> error + jsonFileReader" where
  "JsonFile name content w =
     (let r = \<lparr>jr_src = \<lparr>pending = content, final = read_final w name\<rparr>, lastErr = None\<rparr>
      in if HasSuffix name ''.gz''
         then (case gzip_err w name of
                 Some err \<Rightarrow> Inl (Errorf ''gzip read error in'' name err)
               | None \<Rightarrow> Inr r)
         else Inr r)"

definition OpenJsonFile :: "string \<Rightarrow> world \<Rightarrow> error + jsonFileReader" where
  "OpenJsonFile filePath w =
     (case osOpen filePath w of
        Inl err \<Rightarrow> Inl (Errorf ''file open error'' filePath err)
      | Inr content \<Rightarrow> JsonFile filePath content w)"

definition jsonFileReader_ReadRaw ::
    "jsonFileReader \<Rightarrow> (string \<times> error option) \<times> jsonFileReader" where
  "jsonFileReader_ReadRaw r =
     (case lastErr r of
        Some e \<Rightarrow> (([], Some e), r)
      | None \<Rightarrow>
          (case ReadBytes nl (jr_src r) of
             ((jsonBin, err), s) \<Rightarrow>
               if length jsonBin > 0 then
                 (if err = None then ((butlast jsonBin, None), r\<lparr>jr_src := s\<rparr>)
                  else if err = Some EOF
                  then ((jsonBin, None), r\<lparr>jr_src := s, lastErr := Some EOF\<rparr>)
                  else ((jsonBin, err), r\<lparr>jr_src := s\<rparr>))
               else ((jsonBin, err), r\<lparr>jr_src := s\<rparr>)))"

text \<open>\<^verbatim>\<open>Read(holder)\<close>: the error, or the object decoded into the holder.\<close>

definition jsonFileReader_Read ::
    "(string \<Rightarrow> error + 'a) \<Rightarrow> jsonFileReader \<Rightarrow> (error + 'a) \<times> jsonFileReader" where
  "jsonFileReader_Read unmarshal r =
     (case lastErr r of
        Some e \<Rightarrow> (Inl e, r)
      | None \<Rightarrow>
          (case ReadBytes nl (jr_src r) of
             ((jsonBin, err), s) \<Rightarrow>
               (case err of
                  Some e \<Rightarrow>
                    if e = EOF \<and> length jsonBin > 0
                    then (unmarshal jsonBin, r\<lparr>jr_src := s, lastErr := Some EOF\<rparr>)
                    else (Inl e, r\<lparr>jr_src := s\<rparr>)
                | None \<Rightarrow> (unmarshal jsonBin, r\<lparr>jr_src := s\<rparr>))))"

abbreviation jsonStreamReader_ReadRaw ::
    "jsonFileReader \<Rightarrow> (string \<times> error option) \<times> jsonFileReader" where
  "jsonStreamReader_ReadRaw \<equiv> jsonFileReader_ReadRaw"

abbreviation jsonStreamReader_Read ::
    "(string \<Rightarrow> error + 'a) \<Rightarrow> jsonFileReader \<Rightarrow> (error + 'a) \<times> jsonFileReader" where
  "jsonStreamReader_Read \<equiv> jsonFileReader_Read"

section \<open>Length-prefixed message codec\<close>

text \<open>\<^verbatim>\<open>binary.BigEndian.PutUint32\<close> and \<^verbatim>\<open>binary.BigEndian.Uint32\<close> on a 4-byte buffer.\<close>

definition PutUint32 :: "32 word \<Rightarrow> string" where
  "PutUint32 v =
     [char_of (unat (drop_bit 24 v)), char_of (unat (drop_bit 16 v)),
      char_of (unat (drop_bit 8 v)), char_of (unat v)]"

fun Uint32 :: "string \<Rightarrow> 32 word" where
  "Uint32 (b0 # b1 # b2 # b3 # _) =
     of_char b3 OR push_bit 8 (of_char b2) OR push_bit 16 (of_char b1) OR push_bit 24 (of_char b0)"
| "Uint32 _ = 0"

text \<open>
  \<^verbatim>\<open>protoFileReader.ReadTo\<close> and \<^verbatim>\<open>protoStreamReader.ReadTo\<close> (the same body). The
  message marshaler is a parameter, as for the object codec; \<^verbatim>\<open>proto.Unmarshal\<close> resets the
  holder before it decodes, so the holder after a successful call is the decoded message.
\<close>

definition protoFileReader_ReadTo ::
    "(string \<Rightarrow> error + 'm) \<Rightarrow> source \<Rightarrow> (error + 'm) \<times> source" where
  "protoFileReader_ReadTo unmarshal r =
     (case ReadFull 4 r of
        ((lenBuf, Some err), r1) \<Rightarrow> (Inl err, r1)
      | ((lenBuf, None), r1) \<Rightarrow>
          if length lenBuf \<noteq> 4
          then (Inl (ErrorfN ''wrong number read'' (length lenBuf) 4), r1)
          else
            (let blockLen = unat (Uint32 lenBuf) in
             case ReadFull blockLen r1 of
               ((block, Some err), r2) \<Rightarrow> (Inl err, r2)
             | ((block, None), r2) \<Rightarrow>
                 if length block \<noteq> blockLen
                 then (Inl (ErrorfN ''wrong read bytes'' (length block) blockLen), r2)
                 else (unmarshal block, r2)))"

abbreviation protoStreamReader_ReadTo ::
    "(string \<Rightarrow> error + 'm) \<Rightarrow> source \<Rightarrow> (error + 'm) \<times> source" where
  "protoStreamReader_ReadTo \<equiv> protoFileReader_ReadTo"

definition ProtoFile :: "string \<Rightarrow> string \<Rightarrow> world \<Rightarrow> error + source" where
  "ProtoFile name content w =
     (let r = \<lparr>pending = content, final = read_final w name\<rparr>
      in if HasSuffix name ''.gz''
         then (case gzip_err w name of
                 Some err \<Rightarrow> Inl (Errorf ''gzip read error in'' name err)
               | None \<Rightarrow> Inr r)
         else Inr r)"

definition OpenProtoFile :: "string \<Rightarrow> world \<Rightarrow> error + source" where
  "OpenProtoFile filePath w =
     (case osOpen filePath w of
        Inl err \<Rightarrow> Inl (Errorf ''file open error'' filePath err)
      | Inr content \<Rightarrow> ProtoFile filePath content w)"

record protoFileWriter =
  pw_path :: string
  pw_count :: nat

definition NewProtoFile :: "string \<Rightarrow> world \<Rightarrow> (error + protoFileWriter) \<times> world" where
  "NewProtoFile filePath w =
     (case osCreate filePath w of
        (Some err, w') \<Rightarrow> (Inl (Errorf ''file create error'' filePath err), w')
      | (None, w') \<Rightarrow> (Inr \<lparr>pw_path = filePath, pw_count = 0\<rparr>, w'))"

text \<open>
  \<^verbatim>\<open>protobufWrite\<close>, through \<^verbatim>\<open>protoFileWriter.Write\<close>: the blob and the error.
  \<^verbatim>\<open>uint32(len(blob))\<close> keeps the low 32 bits of the length.
\<close>

definition protoFileWriter_Write ::
    "('m \<Rightarrow> error + string) \<Rightarrow> protoFileWriter \<Rightarrow> 'm \<Rightarrow> world \<Rightarrow>
     (string \<times> error option) \<times> protoFileWriter \<times> world" where
  "protoFileWriter_Write marshal wr message w =
     (case marshal message of
        Inl err \<Rightarrow> (([], Some (Errorf0 ''proto marshal error'' err)), wr, w)
      | Inr blob \<Rightarrow>
          (let lenBuf = PutUint32 (word_of_nat (length blob)) in
           case fwrite (pw_path wr) (pw_count wr) lenBuf w of
             ((n, Some err), w1) \<Rightarrow> ((blob, Some err), wr\<lparr>pw_count := pw_count wr + 1\<rparr>, w1)
           | ((n, None), w1) \<Rightarrow>
               if n \<noteq> length lenBuf
               then ((blob, Some (ErrorfN ''wrong number written'' n (length lenBuf))),
                     wr\<lparr>pw_count := pw_count wr + 1\<rparr>, w1)
               else
                 (case fwrite (pw_path wr) (pw_count wr + 1) blob w1 of
                    ((n, Some err), w2) \<Rightarrow>
                      ((blob, Some err), wr\<lparr>pw_count := pw_count wr + 2\<rparr>, w2)
                  | ((n, None), w2) \<Rightarrow>
                      if n \<noteq> length blob
                      then ((blob, Some (ErrorfN ''wrong number written'' n (length blob))),
                            wr\<lparr>pw_count := pw_count wr + 2\<rparr>, w2)
                      else ((blob, None), wr\<lparr>pw_count := pw_count wr + 2\<rparr>, w2))))"

section \<open>Sequences of read calls\<close>






section \<open>Split and Join\<close>

text \<open>
  Calling a method on a nil interface value panics; \<open>NilPanic\<close> is that outcome.
\<close>

datatype 'a outcome = Returns 'a | NilPanic

subsection \<open>Every successful read consumes input\<close>

definition jr_size :: "jsonFileReader \<Rightarrow> nat" where
  "jr_size r = length (pending (jr_src r)) + (if lastErr r = None then 1 else 0)"

lemma dropWhile_drop1_less: "x \<in> set xs \<Longrightarrow> length (dropWhile P xs) - Suc 0 < length xs"
  using length_dropWhile_le[of P xs] by (cases xs) auto

lemma ReadRaw_consumes:
  "jsonFileReader_ReadRaw r = ((raw, None), r') \<Longrightarrow> jr_size r' < jr_size r"
  by (auto simp: jsonFileReader_ReadRaw_def ReadBytes_def jr_size_def dropWhile_drop1_less
        split: option.splits if_splits prod.splits)

lemma ReadFull_length: "ReadFull n s = ((b, None), s') \<Longrightarrow> length b = n"
  by (auto simp: ReadFull_def split: if_splits)

lemma ReadFull_consumes:
  "ReadFull n s = ((b, None), s') \<Longrightarrow> length (pending s') + n = length (pending s) \<or> n = 0 \<and> s' = s"
  by (auto simp: ReadFull_def split: if_splits)

lemma ReadTo_consumes:
  assumes "protoFileReader_ReadTo unmarshal r = (Inr m, r')"
  shows "length (pending r') < length (pending r)"
proof -
  obtain lenBuf r1 where 1: "ReadFull 4 r = ((lenBuf, None), r1)"
    using assms
    by (auto simp: protoFileReader_ReadTo_def split: prod.splits option.splits)
  then have l1: "length (pending r1) + 4 = length (pending r)"
    using ReadFull_consumes[OF 1] by simp
  obtain block where 2: "ReadFull (unat (Uint32 lenBuf)) r1 = ((block, None), r')"
    using assms 1
    by (auto simp: protoFileReader_ReadTo_def Let_def
          split: prod.splits option.splits if_splits)
  have "length (pending r') \<le> length (pending r1)"
    using ReadFull_consumes[OF 2] by auto
  with l1 show ?thesis by simp
qed

lemma skipLine_length: "length (skipLine s) \<le> length s"
  by (simp add: skipLine_def) (metis length_dropWhile_le diff_le_self le_trans)

lemma csvScan_length: "csvScan m cur fs inp = (res, rest) \<Longrightarrow> length rest \<le> length inp"
proof (induction m cur fs inp arbitrary: res rest rule: csvScan.induct)
  case (4 m cur fs c r)
  show ?case
    using "4.prems" "4.IH" skipLine_length[of r]
    by (auto split: if_splits csv_mode.splits simp: le_Suc_eq dest!: meta_spec)
qed auto

lemma csvRecord_length: "csvRecord inp = Some (res, rest) \<Longrightarrow> length rest < length inp"
proof (induction inp arbitrary: res rest)
  case Nil
  then show ?case by simp
next
  case (Cons c r)
  show ?case
  proof (cases "c = nl \<or> c = cr \<and> r \<noteq> [] \<and> hd r = nl")
    case True
    then have "csvRecord r = Some (res, rest) \<or> csvRecord (tl r) = Some (res, rest)"
      using Cons.prems by (auto split: if_splits)
    then have "length rest < length r \<or> length rest < length (tl r)"
      using Cons.IH True
      by (metis list.collapse list.sel(2) csvRecord.simps(2) option.distinct(1) Cons.prems
            length_Cons less_Suc_eq less_trans)
    then show ?thesis by auto
  next
    case False
    show ?thesis
    proof (cases "c = dq")
      case True
      then have "csvScan Quoted [] [] r = (res, rest)"
        using Cons.prems False by (auto split: if_splits)
      then show ?thesis using csvScan_length by fastforce
    next
      case nq: False
      have ne: "\<not> (c = cr \<and> r = [])"
        using Cons.prems False by (auto split: if_splits)
      have u: "csvScan Unquoted [] [] (c # r) = (res, rest)"
        using Cons.prems False nq ne by (auto split: if_splits)
      show ?thesis
        using u False nq ne csvScan_length[of _ _ _ r res rest]
          csvScan_length[of _ _ _ "tl r" res rest]
        by (auto split: if_splits simp: less_Suc_eq_le
              intro: order_trans[where y = "length (tl r)"])
    qed
  qed
qed

lemma csvRead_consumes:
  "csvFileReader_Read r = ((record, None), r') \<Longrightarrow>
   length (csv_pending (csvr r')) < length (csv_pending (csvr r))"
  by (auto simp: csvFileReader_Read_def csvRead_def
        split: prod.splits option.splits if_splits dest: csvRecord_length)

subsection \<open>Split\<close>

text \<open>
  The loop of \<^verbatim>\<open>SplitJsonFile\<close>. Its condition tests the function's variable
  \<^verbatim>\<open>err\<close> (the parameter \<open>err\<close>), but the body declares its own with
  \<^verbatim>\<open>raw, err := reader.ReadRaw()\<close>, and the later assignments in the body go to that one:
  the function's \<^verbatim>\<open>err\<close> is never assigned in the loop. The loop returns the function's
  \<^verbatim>\<open>err\<close>, \<^verbatim>\<open>writer\<close> and \<^verbatim>\<open>parts\<close>. \<^verbatim>\<open>Close\<close> does not change the files of the
  model and its result is discarded.
\<close>

function SplitJsonFile_loop ::
    "int \<Rightarrow> (int \<Rightarrow> string) \<Rightarrow> jsonFileReader \<Rightarrow> error option \<Rightarrow> jsonFileWriter option \<Rightarrow>
     string list \<Rightarrow> int \<Rightarrow> int \<Rightarrow> world \<Rightarrow>
     (error option \<times> jsonFileWriter option \<times> string list \<times> world) outcome" where
  "SplitJsonFile_loop limit partFn reader err writer parts partNum cnt w =
     (if err \<noteq> None then Returns (err, writer, parts, w)
      else
        (case jsonFileReader_ReadRaw reader of
           ((raw, Some e), reader') \<Rightarrow> Returns (err, writer, parts, w)
         | ((raw, None), reader') \<Rightarrow>
             if cnt = limit then
               (case NewJsonFile (partFn partNum) w of
                  (Inl e, w1) \<Rightarrow> Returns (err, None, parts, w1)
                | (Inr wr, w1) \<Rightarrow>
                    (case jsonFileWriter_WriteRaw wr raw w1 of
                       (e, wr', w2) \<Rightarrow>
                         SplitJsonFile_loop limit partFn reader' err (Some wr')
                           (parts @ [partFn partNum]) (partNum + 1) 1 w2))
             else
               (case writer of
                  None \<Rightarrow> NilPanic
                | Some wr \<Rightarrow>
                    (case jsonFileWriter_WriteRaw wr raw w of
                       (e, wr', w2) \<Rightarrow>
                         SplitJsonFile_loop limit partFn reader' err (Some wr')
                           parts partNum (cnt + 1) w2))))"
  by pat_completeness auto
termination
  by (relation "measure (\<lambda>(limit, partFn, reader, rest). jr_size reader)")
     (auto dest: ReadRaw_consumes[OF sym])

declare SplitJsonFile_loop.simps [simp del]

text \<open>What follows the loop in all three Split functions.\<close>

definition Split_finish ::
    "error option \<Rightarrow> string list \<Rightarrow> world \<Rightarrow> (string list \<times> error option) \<times> world" where
  "Split_finish err parts w =
     (let err = (if err = Some EOF then None else err)
      in if err \<noteq> None then (([], err), fold osRemove parts w) else ((parts, err), w))"

definition SplitJsonFile ::
    "string \<Rightarrow> int \<Rightarrow> (int \<Rightarrow> string) \<Rightarrow> world \<Rightarrow>
     ((string list \<times> error option) \<times> world) outcome" where
  "SplitJsonFile inputFilePath limit partFn w =
     (case OpenJsonFile inputFilePath w of
        Inl err \<Rightarrow> Returns (([], Some err), w)
      | Inr reader \<Rightarrow>
          (case SplitJsonFile_loop limit partFn reader None None [] 1 limit w of
             NilPanic \<Rightarrow> NilPanic
           | Returns (err, writer, parts, w1) \<Rightarrow> Returns (Split_finish err parts w1)))"

text \<open>
  The loop of \<^verbatim>\<open>SplitProtoFile\<close> assigns the function's \<^verbatim>\<open>err\<close> throughout
  (\<^verbatim>\<open>err = reader.ReadTo(holder)\<close>, \<^verbatim>\<open>writer, err = ...\<close>, \<^verbatim>\<open>_, err = writer.Write(holder)\<close>).
\<close>

function SplitProtoFile_loop ::
    "(string \<Rightarrow> error + 'm) \<Rightarrow> ('m \<Rightarrow> error + string) \<Rightarrow> int \<Rightarrow> (int \<Rightarrow> string) \<Rightarrow>
     source \<Rightarrow> error option \<Rightarrow> protoFileWriter option \<Rightarrow> string list \<Rightarrow> int \<Rightarrow> int \<Rightarrow> world \<Rightarrow>
     (error option \<times> protoFileWriter option \<times> string list \<times> world) outcome" where
  "SplitProtoFile_loop unmarshal marshal limit partFn reader err writer parts partNum cnt w =
     (if err \<noteq> None then Returns (err, writer, parts, w)
      else
        (case protoFileReader_ReadTo unmarshal reader of
           (Inl e, reader') \<Rightarrow> Returns (Some e, writer, parts, w)
         | (Inr holder, reader') \<Rightarrow>
             if cnt = limit then
               (case NewProtoFile (partFn partNum) w of
                  (Inl e, w1) \<Rightarrow> Returns (Some e, None, parts, w1)
                | (Inr wr, w1) \<Rightarrow>
                    (case protoFileWriter_Write marshal wr holder w1 of
                       ((blob, e), wr', w2) \<Rightarrow>
                         SplitProtoFile_loop unmarshal marshal limit partFn reader' e (Some wr')
                           (parts @ [partFn partNum]) (partNum + 1) 1 w2))
             else
               (case writer of
                  None \<Rightarrow> NilPanic
                | Some wr \<Rightarrow>
                    (case protoFileWriter_Write marshal wr holder w of
                       ((blob, e), wr', w2) \<Rightarrow>
                         SplitProtoFile_loop unmarshal marshal limit partFn reader' e (Some wr')
                           parts partNum (cnt + 1) w2))))"
  by pat_completeness auto
termination
  by (relation "measure (\<lambda>(unmarshal, marshal, limit, partFn, reader, rest).
                  length (pending reader))")
     (auto dest: ReadTo_consumes[OF sym])

declare SplitProtoFile_loop.simps [simp del]

definition SplitProtoFile ::
    "(string \<Rightarrow> error + 'm) \<Rightarrow> ('m \<Rightarrow> error + string) \<Rightarrow> string \<Rightarrow> int \<Rightarrow> (int \<Rightarrow> string) \<Rightarrow>
     world \<Rightarrow> ((string list \<times> error option) \<times> world) outcome" where
  "SplitProtoFile unmarshal marshal inputFilePath limit partFn w =
     (case OpenProtoFile inputFilePath w of
        Inl err \<Rightarrow> Returns (([], Some err), w)
      | Inr reader \<Rightarrow>
          (case SplitProtoFile_loop unmarshal marshal limit partFn reader None None [] 1 limit w of
             NilPanic \<Rightarrow> NilPanic
           | Returns (err, writer, parts, w1) \<Rightarrow> Returns (Split_finish err parts w1)))"

text \<open>
  The loop of \<^verbatim>\<open>SplitCsvFile\<close> declares its own \<^verbatim>\<open>err\<close> with
  \<^verbatim>\<open>row, err := reader.Read()\<close>, as the loop of \<^verbatim>\<open>SplitJsonFile\<close> does.
\<close>

function SplitCsvFile_loop ::
    "int \<Rightarrow> (int \<Rightarrow> string) \<Rightarrow> string list \<Rightarrow> csvFileReader \<Rightarrow> error option \<Rightarrow>
     csvFileWriter option \<Rightarrow> string list \<Rightarrow> int \<Rightarrow> int \<Rightarrow> world \<Rightarrow>
     (error option \<times> csvFileWriter option \<times> string list \<times> world) outcome" where
  "SplitCsvFile_loop limit partFn header reader err writer parts partNum cnt w =
     (if err \<noteq> None then Returns (err, writer, parts, w)
      else
        (case csvFileReader_Read reader of
           ((row, Some e), reader') \<Rightarrow> Returns (err, writer, parts, w)
         | ((row, None), reader') \<Rightarrow>
             if cnt = limit then
               (case NewCsvFile (partFn partNum) [] w of
                  (Inl e, w1) \<Rightarrow> Returns (err, None, parts, w1)
                | (Inr wr, w1) \<Rightarrow>
                    (case csvFileWriter_Write wr header w1 of
                       (Some e, wr1, w2) \<Rightarrow>
                         Returns (err, Some wr1, parts @ [partFn partNum], w2)
                     | (None, wr1, w2) \<Rightarrow>
                         (case csvFileWriter_Write wr1 row w2 of
                            (e, wr2, w3) \<Rightarrow>
                              SplitCsvFile_loop limit partFn header reader' err (Some wr2)
                                (parts @ [partFn partNum]) (partNum + 1) 1 w3)))
             else
               (case writer of
                  None \<Rightarrow> NilPanic
                | Some wr \<Rightarrow>
                    (case csvFileWriter_Write wr row w of
                       (e, wr', w2) \<Rightarrow>
                         SplitCsvFile_loop limit partFn header reader' err (Some wr')
                           parts partNum (cnt + 1) w2))))"
  by pat_completeness auto
termination
  by (relation "measure (\<lambda>(limit, partFn, header, reader, rest).
                  length (csv_pending (csvr reader)))")
     (auto dest: csvRead_consumes[OF sym])

declare SplitCsvFile_loop.simps [simp del]

definition SplitCsvFile ::
    "string \<Rightarrow> int \<Rightarrow> (int \<Rightarrow> string) \<Rightarrow> world \<Rightarrow>
     ((string list \<times> error option) \<times> world) outcome" where
  "SplitCsvFile inputFilePath limit partFn w =
     (case OpenCsvFile inputFilePath [] w of
        Inl err \<Rightarrow> Returns (([], Some err), w)
      | Inr reader \<Rightarrow>
          (case csvFileReader_Read reader of
             ((header, Some err), reader1) \<Rightarrow> Returns (([], Some err), w)
           | ((header, None), reader1) \<Rightarrow>
               (case SplitCsvFile_loop limit partFn header reader1 None None [] 1 limit w of
                  NilPanic \<Rightarrow> NilPanic
                | Returns (err, writer, parts, w1) \<Rightarrow> Returns (Split_finish err parts w1))))"

subsection \<open>Join\<close>

text \<open>
  The inner loop of \<^verbatim>\<open>JoinJsonFiles\<close> over one part. The left result is the return from
  inside the loop (a write error), the right one is the \<^verbatim>\<open>break\<close>. The body declares its
  own \<^verbatim>\<open>err\<close> with \<^verbatim>\<open>raw, err := reader.ReadRaw()\<close>, so the error that ends the loop does
  not reach the \<^verbatim>\<open>err\<close> that is tested after it.
\<close>

function JoinJsonFiles_read ::
    "string \<Rightarrow> jsonFileReader \<Rightarrow> jsonFileWriter \<Rightarrow> world \<Rightarrow> (error + jsonFileWriter) \<times> world" where
  "JoinJsonFiles_read outputFilePath reader writer w =
     (case jsonFileReader_ReadRaw reader of
        ((raw, Some e), reader') \<Rightarrow> (Inr writer, w)
      | ((raw, None), reader') \<Rightarrow>
          (case jsonFileWriter_WriteRaw writer raw w of
             (Some e, writer', w') \<Rightarrow>
               (Inl (Errorf ''can not write row to file'' outputFilePath e), w')
           | (None, writer', w') \<Rightarrow> JoinJsonFiles_read outputFilePath reader' writer' w'))"
  by pat_completeness auto
termination
  by (relation "measure (\<lambda>(outputFilePath, reader, rest). jr_size reader)")
     (auto dest: ReadRaw_consumes[OF sym])

declare JoinJsonFiles_read.simps [simp del]

fun JoinJsonFiles_parts ::
    "string \<Rightarrow> jsonFileWriter \<Rightarrow> string list \<Rightarrow> world \<Rightarrow> error option \<times> world" where
  "JoinJsonFiles_parts outputFilePath writer [] w = (None, w)"
| "JoinJsonFiles_parts outputFilePath writer (part # parts) w =
     (case OpenJsonFile part w of
        Inl err \<Rightarrow> (Some (Errorf ''can not open file'' part err), w)
      | Inr reader \<Rightarrow>
          (case JoinJsonFiles_read outputFilePath reader writer w of
             (Inl e, w') \<Rightarrow> (Some e, w')
           | (Inr writer', w') \<Rightarrow>
               (case (if (None :: error option) = Some EOF then None else None) of
                  Some err \<Rightarrow> (Some (Errorf ''join read file'' part err), w')
                | None \<Rightarrow> JoinJsonFiles_parts outputFilePath writer' parts w')))"

definition JoinJsonFiles :: "string \<Rightarrow> string list \<Rightarrow> world \<Rightarrow> error option \<times> world" where
  "JoinJsonFiles outputFilePath parts w =
     (case NewJsonFile outputFilePath w of
        (Inl err, w') \<Rightarrow> (Some err, w')
      | (Inr writer, w') \<Rightarrow> JoinJsonFiles_parts outputFilePath writer parts w')"

text \<open>
  The inner loop of \<^verbatim>\<open>JoinProtoFiles\<close> assigns the part's \<^verbatim>\<open>err\<close>
  (\<^verbatim>\<open>err = reader.ReadTo(row)\<close>); the \<^verbatim>\<open>break\<close> carries it out of the loop.
\<close>

function JoinProtoFiles_read ::
    "(string \<Rightarrow> error + 'm) \<Rightarrow> ('m \<Rightarrow> error + string) \<Rightarrow> string \<Rightarrow> source \<Rightarrow>
     protoFileWriter \<Rightarrow> world \<Rightarrow> (error + error \<times> protoFileWriter) \<times> world" where
  "JoinProtoFiles_read unmarshal marshal outputFilePath reader writer w =
     (case protoFileReader_ReadTo unmarshal reader of
        (Inl e, reader') \<Rightarrow> (Inr (e, writer), w)
      | (Inr row, reader') \<Rightarrow>
          (case protoFileWriter_Write marshal writer row w of
             ((blob, Some e), writer', w') \<Rightarrow>
               (Inl (Errorf ''can not write row to file'' outputFilePath e), w')
           | ((blob, None), writer', w') \<Rightarrow>
               JoinProtoFiles_read unmarshal marshal outputFilePath reader' writer' w'))"
  by pat_completeness auto
termination
  by (relation "measure (\<lambda>(unmarshal, marshal, outputFilePath, reader, rest).
                  length (pending reader))")
     (auto dest: ReadTo_consumes[OF sym])

declare JoinProtoFiles_read.simps [simp del]

fun JoinProtoFiles_parts ::
    "(string \<Rightarrow> error + 'm) \<Rightarrow> ('m \<Rightarrow> error + string) \<Rightarrow> string \<Rightarrow> protoFileWriter \<Rightarrow>
     string list \<Rightarrow> world \<Rightarrow> error option \<times> world" where
  "JoinProtoFiles_parts unmarshal marshal outputFilePath writer [] w = (None, w)"
| "JoinProtoFiles_parts unmarshal marshal outputFilePath writer (part # parts) w =
     (case OpenProtoFile part w of
        Inl err \<Rightarrow> (Some (Errorf ''can not open file'' part err), w)
      | Inr reader \<Rightarrow>
          (case JoinProtoFiles_read unmarshal marshal outputFilePath reader writer w of
             (Inl e, w') \<Rightarrow> (Some e, w')
           | (Inr (err, writer'), w') \<Rightarrow>
               (case (if Some err = Some EOF then None else Some err) of
                  Some err \<Rightarrow> (Some (Errorf ''join read file'' part err), w')
                | None \<Rightarrow> JoinProtoFiles_parts unmarshal marshal outputFilePath writer' parts w')))"

definition JoinProtoFiles ::
    "(string \<Rightarrow> error + 'm) \<Rightarrow> ('m \<Rightarrow> error + string) \<Rightarrow> string \<Rightarrow> string list \<Rightarrow> world \<Rightarrow>
     error option \<times> world" where
  "JoinProtoFiles unmarshal marshal outputFilePath parts w =
     (case NewProtoFile outputFilePath w of
        (Inl err, w') \<Rightarrow> (Some err, w')
      | (Inr writer, w') \<Rightarrow> JoinProtoFiles_parts unmarshal marshal outputFilePath writer parts w')"

text \<open>
  The inner loop of \<^verbatim>\<open>JoinCsvFiles\<close> declares its own \<^verbatim>\<open>err\<close> with
  \<^verbatim>\<open>row, err := reader.Read()\<close>, as the loop of \<^verbatim>\<open>JoinJsonFiles\<close> does.
\<close>

function JoinCsvFiles_read ::
    "string \<Rightarrow> csvFileReader \<Rightarrow> csvFileWriter \<Rightarrow> world \<Rightarrow> (error + csvFileWriter) \<times> world" where
  "JoinCsvFiles_read outputFilePath reader writer w =
     (case csvFileReader_Read reader of
        ((row, Some e), reader') \<Rightarrow> (Inr writer, w)
      | ((row, None), reader') \<Rightarrow>
          (case csvFileWriter_Write writer row w of
             (Some e, writer', w') \<Rightarrow>
               (Inl (Errorf ''can not write row to file'' outputFilePath e), w')
           | (None, writer', w') \<Rightarrow> JoinCsvFiles_read outputFilePath reader' writer' w'))"
  by pat_completeness auto
termination
  by (relation "measure (\<lambda>(outputFilePath, reader, rest). length (csv_pending (csvr reader)))")
     (auto dest: csvRead_consumes[OF sym])

declare JoinCsvFiles_read.simps [simp del]

text \<open>\<open>i\<close> is the index of the part in \<^verbatim>\<open>for i, part := range parts\<close>.\<close>

fun JoinCsvFiles_parts ::
    "string \<Rightarrow> csvFileWriter \<Rightarrow> nat \<Rightarrow> string list \<Rightarrow> world \<Rightarrow> error option \<times> world" where
  "JoinCsvFiles_parts outputFilePath writer i [] w = (None, w)"
| "JoinCsvFiles_parts outputFilePath writer i (part # parts) w =
     (case OpenCsvFile part [] w of
        Inl err \<Rightarrow> (Some (Errorf ''can not open file'' part err), w)
      | Inr reader \<Rightarrow>
          (case csvFileReader_Read reader of
             ((header, Some err), reader1) \<Rightarrow>
               (Some (Errorf ''can not read header in file'' part err), w)
           | ((header, None), reader1) \<Rightarrow>
               (case (if i = 0 then csvFileWriter_Write writer header w else (None, writer, w)) of
                  (Some err, writer1, w1) \<Rightarrow>
                    (Some (Errorf ''can not write header to file'' outputFilePath err), w1)
                | (None, writer1, w1) \<Rightarrow>
                    (case JoinCsvFiles_read outputFilePath reader1 writer1 w1 of
                       (Inl e, w2) \<Rightarrow> (Some e, w2)
                     | (Inr writer2, w2) \<Rightarrow>
                         (case (if (None :: error option) = Some EOF then None else None) of
                            Some err \<Rightarrow> (Some (Errorf ''join read file'' part err), w2)
                          | None \<Rightarrow>
                              JoinCsvFiles_parts outputFilePath writer2 (i + 1) parts w2)))))"

definition JoinCsvFiles :: "string \<Rightarrow> string list \<Rightarrow> world \<Rightarrow> error option \<times> world" where
  "JoinCsvFiles outputFilePath parts w =
     (case NewCsvFile outputFilePath [] w of
        (Inl err, w') \<Rightarrow> (Some err, w')
      | (Inr writer, w') \<Rightarrow> JoinCsvFiles_parts outputFilePath writer 0 parts w')"

section \<open>A part namer and a marshaler for the examples\<close>

text \<open>The decimal digits of a number, as \<^verbatim>\<open>fmt.Sprintf("%d", n)\<close> prints them.\<close>

function decimal :: "nat \<Rightarrow> string" where
  "decimal n =
     (if n < 10 then [''0123456789'' ! n]
      else decimal (n div 10) @ [''0123456789'' ! (n mod 10)])"
  by pat_completeness auto
termination
  by (relation "measure id") auto

declare decimal.simps [simp del]

text \<open>The part namer of the examples, \<^verbatim>\<open>fmt.Sprintf("part%d", i)\<close> for \<open>i \<ge> 0\<close>.\<close>

definition partName :: "int \<Rightarrow> string" where
  "partName i = ''part'' @ decimal (nat i)"

text \<open>The identity marshaler of the examples: a message is its own encoding.\<close>

definition idMarshal :: "string \<Rightarrow> error + string" where
  "idMarshal m = Inr m"


section \<open>Chunks, parts and record sequences\<close>

text \<open>
  The consecutive chunks of at most \<open>n\<close> elements of a list (for \<open>n > 0\<close>).
\<close>

function chunks :: "nat \<Rightarrow> 'a list \<Rightarrow> 'a list list" where
  "chunks n xs = (if n = 0 \<or> xs = [] then [] else take n xs # chunks n (drop n xs))"
  by pat_completeness auto
termination
  by (relation "measure (\<lambda>(n, xs). length xs)") auto

declare chunks.simps [simp del]

text \<open>The paths the part namer gives for \<open>k\<close> consecutive indices from \<open>pn\<close> on.\<close>

definition part_paths :: "(int \<Rightarrow> string) \<Rightarrow> int \<Rightarrow> nat \<Rightarrow> string list" where
  "part_paths partFn pn k = map (\<lambda>i. partFn (pn + int i)) [0..<k]"

text \<open>
  The files after the parts have been written one after the other: the part with index
  \<open>pn\<close> holds the header bytes \<open>hdr\<close> followed by the encoded records of the first chunk,
  and so on.
\<close>

fun write_parts ::
    "(int \<Rightarrow> string) \<Rightarrow> string \<Rightarrow> int \<Rightarrow> string list list \<Rightarrow> (string \<rightharpoonup> string) \<Rightarrow>
     (string \<rightharpoonup> string)" where
  "write_parts partFn hdr pn [] fs = fs"
| "write_parts partFn hdr pn (c # cs) fs =
     write_parts partFn hdr (pn + 1) cs (fs(partFn pn \<mapsto> hdr @ concat c))"

text \<open>
  The Split loop on the level of encoded records: \<open>cur\<close> is the path of the open part,
  \<open>cnt\<close> the running count. It returns the paths added and the files.
\<close>

fun split_rec ::
    "(int \<Rightarrow> string) \<Rightarrow> int \<Rightarrow> string \<Rightarrow> string list \<Rightarrow> string option \<Rightarrow> int \<Rightarrow> int \<Rightarrow>
     (string \<rightharpoonup> string) \<Rightarrow> string list \<times> (string \<rightharpoonup> string)" where
  "split_rec partFn L hdr [] cur pn cnt fs = ([], fs)"
| "split_rec partFn L hdr (x # xs) cur pn cnt fs =
     (if cnt = L then
        (case split_rec partFn L hdr xs (Some (partFn pn)) (pn + 1) 1
                (fs(partFn pn \<mapsto> hdr @ x)) of
           (ps, fs') \<Rightarrow> (partFn pn # ps, fs'))
      else
        (case cur of
           None \<Rightarrow> ([], fs)
         | Some p \<Rightarrow>
             split_rec partFn L hdr xs cur pn (cnt + 1)
               (case fs p of None \<Rightarrow> fs | Some c \<Rightarrow> fs(p \<mapsto> c @ x))))"

text \<open>The bytes of a sequence of lines, each ended by a line feed.\<close>

definition jsonLines :: "string list \<Rightarrow> string" where
  "jsonLines recs = concat (map (\<lambda>r. r @ [nl]) recs)"

text \<open>A length-prefixed frame, and the bytes of a sequence of frames.\<close>

definition frame :: "string \<Rightarrow> string" where
  "frame blob = PutUint32 (word_of_nat (length blob)) @ blob"

definition frames :: "string list \<Rightarrow> string" where
  "frames blobs = concat (map frame blobs)"

text \<open>The bytes of a sequence of rows as the row writer emits them.\<close>

definition csvLines :: "string list list \<Rightarrow> string" where
  "csvLines rows = concat (map csvLine rows)"

text \<open>
  The rows a row reader yields until its first error, and that error (end-of-stream for a
  file that parses to the end).
\<close>

function csvReadAll :: "csvFileReader \<Rightarrow> string list list \<times> error" where
  "csvReadAll r =
     (case csvFileReader_Read r of
        ((row, Some e), r') \<Rightarrow> ([], e)
      | ((row, None), r') \<Rightarrow> (case csvReadAll r' of (rows, e) \<Rightarrow> (row # rows, e)))"
  by pat_completeness auto
termination
  by (relation "measure (\<lambda>r. length (csv_pending (csvr r)))")
     (auto dest: csvRead_consumes[OF sym])

declare csvReadAll.simps [simp del]

text \<open>A fresh row reader on the given bytes, without value processors.\<close>

definition csvOn :: "string \<Rightarrow> csvFileReader" where
  "csvOn content = \<lparr>csvr = \<lparr>csv_pending = content, FieldsPerRecord = 0\<rparr>, cr_valueProcessors = []\<rparr>"

text \<open>The blobs that the marshaler decodes and encodes back to the same bytes.\<close>

definition stable :: "(string \<Rightarrow> error + 'm) \<Rightarrow> ('m \<Rightarrow> error + string) \<Rightarrow> string \<Rightarrow> bool" where
  "stable unmarshal marshal b =
     (length b < 2 ^ 32 \<and>
      (case unmarshal b of Inl e \<Rightarrow> False | Inr m \<Rightarrow> marshal m = Inr b))"

text \<open>
  The file at a path exists and a fresh row reader on it yields the given rows (the header
  first) before its first error.
\<close>

definition csvHolds :: "(string \<rightharpoonup> string) \<Rightarrow> string \<Rightarrow> string list list \<Rightarrow> bool" where
  "csvHolds fs p rows =
     (case fs p of None \<Rightarrow> False | Some content \<Rightarrow> fst (csvReadAll (csvOn content)) = rows)"

text \<open>
  The rows survive the row codec: a file holding what the row writer emits for them yields
  the same rows to a fresh row reader.
\<close>

definition reads_back :: "string list list \<Rightarrow> bool" where
  "reads_back rows = (fst (csvReadAll (csvOn (csvLines rows))) = rows)"

section \<open>Transforms are applied in registered order\<close>

lemma zipValues_map: "zipValues ps vs = map (\<lambda>v. foldl (\<lambda>v p. p v) v ps) vs"
proof -
  have "foldl (\<lambda>arr v. arr @ [foldl (\<lambda>v p. p v) v ps]) acc vs
        = acc @ map (\<lambda>v. foldl (\<lambda>v p. p v) v ps) vs" for acc
    by (induction vs arbitrary: acc) simp_all
  then show ?thesis by (simp add: zipValues_def)
qed

lemmas csv_eval =
  csvLine_def zipValues_def TrimSpace_def PandasFriendly_def RemoveHash_def EmptyValues_def
  isSpace_def csvField_def fieldNeedsQuotes_def spaceRunes_def csvFileWriter_Write_def
  csvw_Write_def fwrite_def quiet_def csvFileReader_Read_def csvRead_def NewCsvFile_def
  osCreate_def osOpen_def OpenCsvFile_def CsvFileReader_def HasSuffix_def

text \<open>
  Claim C9. With the transforms \<open>[A, B]\<close> configured, the writer hands
  \<open>B (A v)\<close> for every value \<open>v\<close> to the encoder and the reader returns \<open>B (A v)\<close> for
  every parsed field \<open>v\<close>. Writing the row (" 123 ", "", " ", "null", "NaN") through
  \<open>[TrimSpace, PandasFriendly]\<close> into a new file leaves exactly the line
  \<^verbatim>\<open>123,#,#,#,#\<close> in it, and reading that line through \<open>[TrimSpace, RemoveHash]\<close> gives
  the fields ("123", "", "", "", "").
\<close>

theorem C9_transforms_in_registered_order:
  assumes "cw_valueProcessors wr = [A, B]" and "cr_valueProcessors rd = [A, B]"
  shows "zipValues [A, B] values = map (\<lambda>v. B (A v)) values
    \<and> csvFileWriter_Write wr values w = csvw_Write wr (map (\<lambda>v. B (A v)) values) w
    \<and> csvFileReader_Read rd =
        (case csvRead (csvr rd) of
           ((record, err), c) \<Rightarrow>
             if err \<noteq> None then (([], err), rd\<lparr>csvr := c\<rparr>)
             else ((map (\<lambda>v. B (A v)) record, None), rd\<lparr>csvr := c\<rparr>))
    \<and> (case NewCsvFile ''f.csv'' [TrimSpace, PandasFriendly] (quiet Map.empty) of
          (Inr wr0, w0) \<Rightarrow>
            files (snd (snd (csvFileWriter_Write wr0
              ['' 123 '', '''', '' '', ''null'', ''NaN''] w0))) ''f.csv''
        | (Inl e, w0) \<Rightarrow> None) = Some (''123,#,#,#,#'' @ [nl])
    \<and> (case OpenCsvFile ''f.csv'' [TrimSpace, RemoveHash]
               (quiet [''f.csv'' \<mapsto> ''123,#,#,#,#'' @ [nl]]) of
          Inr rd0 \<Rightarrow> fst (csvFileReader_Read rd0)
        | Inl e \<Rightarrow> ([], Some e)) = ([''123'', '''', '''', '''', ''''], None)"
proof -
  have z: "zipValues [A, B] vs = map (\<lambda>v. B (A v)) vs" for vs
    by (simp add: zipValues_map)
  have wr: "csvFileWriter_Write wr values w = csvw_Write wr (map (\<lambda>v. B (A v)) values) w"
    using assms(1) by (simp add: csvFileWriter_Write_def z)
  have rd: "csvFileReader_Read rd =
        (case csvRead (csvr rd) of
           ((record, err), c) \<Rightarrow>
             if err \<noteq> None then (([], err), rd\<lparr>csvr := c\<rparr>)
             else ((map (\<lambda>v. B (A v)) record, None), rd\<lparr>csvr := c\<rparr>))"
    using assms(2) by (simp add: csvFileReader_Read_def z split: prod.splits)
  have c1: "(case NewCsvFile ''f.csv'' [TrimSpace, PandasFriendly] (quiet Map.empty) of
          (Inr wr0, w0) \<Rightarrow>
            files (snd (snd (csvFileWriter_Write wr0
              ['' 123 '', '''', '' '', ''null'', ''NaN''] w0))) ''f.csv''
        | (Inl e, w0) \<Rightarrow> None) = Some (''123,#,#,#,#'' @ [nl])"
    by (simp add: csv_eval)
  have c2: "(case OpenCsvFile ''f.csv'' [TrimSpace, RemoveHash]
               (quiet [''f.csv'' \<mapsto> ''123,#,#,#,#'' @ [nl]]) of
          Inr rd0 \<Rightarrow> fst (csvFileReader_Read rd0)
        | Inl e \<Rightarrow> ([], Some e)) = ([''123'', '''', '''', '''', ''''], None)"
    by (simp add: csv_eval)
  show ?thesis using z wr rd c1 c2 by blast
qed

theorem C9_transforms_witness:
  "csvFileWriter_Write
      \<lparr>cw_path = ''f.csv'', cw_count = 0, cw_valueProcessors = [TrimSpace, PandasFriendly]\<rparr>
      ['' 123 '', ''NaN''] (quiet [''f.csv'' \<mapsto> []])
    = csvw_Write
      \<lparr>cw_path = ''f.csv'', cw_count = 0, cw_valueProcessors = [TrimSpace, PandasFriendly]\<rparr>
      [''123'', ''#''] (quiet [''f.csv'' \<mapsto> []])
   \<and> fst (csvFileReader_Read
       \<lparr>csvr = \<lparr>csv_pending = ''a , '' @ [nl], FieldsPerRecord = 0\<rparr>,
        cr_valueProcessors = [TrimSpace, PandasFriendly]\<rparr>) = ([''a'', ''#''], None)"
  using C9_transforms_in_registered_order
    [of "\<lparr>cw_path = ''f.csv'', cw_count = 0,
          cw_valueProcessors = [TrimSpace, PandasFriendly]\<rparr>"
        TrimSpace PandasFriendly
        "\<lparr>csvr = \<lparr>csv_pending = ''a , '' @ [nl], FieldsPerRecord = 0\<rparr>,
          cr_valueProcessors = [TrimSpace, PandasFriendly]\<rparr>"
        "['' 123 '', ''NaN'']" "quiet [''f.csv'' \<mapsto> []]"]
  by (simp add: csv_eval)

section \<open>Close: order of teardown and the error returned\<close>






section \<open>Reading: lines, frames and the end of the stream\<close>

lemma ReadBytes_no_delim:
  "delim \<notin> set (pending s) \<Longrightarrow>
   ReadBytes delim s = ((pending s, Some (final s)), s\<lparr>pending := []\<rparr>)"
  by (simp add: ReadBytes_def)

lemma takeWhile_upto:
  "delim \<notin> set x \<Longrightarrow> takeWhile (\<lambda>c. c \<noteq> delim) (x @ delim # rest) = x"
  by (induction x) auto

lemma dropWhile_upto:
  "delim \<notin> set x \<Longrightarrow> dropWhile (\<lambda>c. c \<noteq> delim) (x @ delim # rest) = delim # rest"
  by (induction x) auto

lemma ReadBytes_line:
  "delim \<notin> set x \<Longrightarrow> pending s = x @ delim # rest \<Longrightarrow>
   ReadBytes delim s = ((x @ [delim], None), s\<lparr>pending := rest\<rparr>)"
  by (simp add: ReadBytes_def takeWhile_upto dropWhile_upto)


















text \<open>
  Claim C7 fails on the code at a stream that is cut off exactly after a length prefix
  announcing a non-empty payload: \<^verbatim>\<open>io.ReadFull\<close> reads no payload byte and returns
  \<^verbatim>\<open>io.EOF\<close>, which \<^verbatim>\<open>ReadTo\<close> passes on, so a truncated record is reported as a clean
  end-of-stream. A stream cut off inside the prefix, or after at least one payload byte,
  gives \<^verbatim>\<open>io.ErrUnexpectedEOF\<close>, and only an empty stream should give \<^verbatim>\<open>io.EOF\<close>.
\<close>

theorem C7_truncated_after_prefix_is_EOF:
  "protoStreamReader_ReadTo (Inr :: string \<Rightarrow> error + string)
      \<lparr>pending = [CHR 0x00, CHR 0x00, CHR 0x00, CHR 0x05], final = EOF\<rparr>
     = (Inl EOF, \<lparr>pending = [], final = EOF\<rparr>)
   \<and> protoStreamReader_ReadTo (Inr :: string \<Rightarrow> error + string)
      \<lparr>pending = [CHR 0x00, CHR 0x00, CHR 0x00], final = EOF\<rparr>
     = (Inl ErrUnexpectedEOF, \<lparr>pending = [], final = EOF\<rparr>)
   \<and> protoStreamReader_ReadTo (Inr :: string \<Rightarrow> error + string)
      \<lparr>pending = [CHR 0x00, CHR 0x00, CHR 0x00, CHR 0x05, CHR ''a''], final = EOF\<rparr>
     = (Inl ErrUnexpectedEOF, \<lparr>pending = [], final = EOF\<rparr>)
   \<and> protoStreamReader_ReadTo (Inr :: string \<Rightarrow> error + string)
      \<lparr>pending = [], final = EOF\<rparr>
     = (Inl EOF, \<lparr>pending = [], final = EOF\<rparr>)"
  by (simp add: protoFileReader_ReadTo_def ReadFull_def)

text \<open>
  Claim C8. When the rest of the stream is a final line with content and no newline byte
  (and the stream ends cleanly), \<^verbatim>\<open>ReadRaw\<close> returns that content with a nil error and
  \<^verbatim>\<open>Read\<close> returns what the marshaler decodes from it; either call records end-of-stream
  in \<^verbatim>\<open>lastErr\<close>, and the call that follows, \<^verbatim>\<open>ReadRaw\<close> or \<^verbatim>\<open>Read\<close>, reports
  end-of-stream.
\<close>

theorem C8_final_line_without_newline:
  assumes "lastErr r = None" and "pending (jr_src r) = content" and "content \<noteq> []"
    and "nl \<notin> set content" and "final (jr_src r) = EOF"
  shows "jsonStreamReader_ReadRaw r
           = ((content, None),
              r\<lparr>jr_src := (jr_src r)\<lparr>pending := []\<rparr>, lastErr := Some EOF\<rparr>)
    \<and> jsonStreamReader_Read unmarshal r
           = (unmarshal content,
              r\<lparr>jr_src := (jr_src r)\<lparr>pending := []\<rparr>, lastErr := Some EOF\<rparr>)
    \<and> jsonStreamReader_ReadRaw
          (r\<lparr>jr_src := (jr_src r)\<lparr>pending := []\<rparr>, lastErr := Some EOF\<rparr>)
           = (([], Some EOF), r\<lparr>jr_src := (jr_src r)\<lparr>pending := []\<rparr>, lastErr := Some EOF\<rparr>)
    \<and> jsonStreamReader_Read unmarshal
          (r\<lparr>jr_src := (jr_src r)\<lparr>pending := []\<rparr>, lastErr := Some EOF\<rparr>)
           = (Inl EOF, r\<lparr>jr_src := (jr_src r)\<lparr>pending := []\<rparr>, lastErr := Some EOF\<rparr>)"
  using assms
  by (simp add: jsonFileReader_ReadRaw_def jsonFileReader_Read_def ReadBytes_no_delim)

theorem C8_final_line_witness:
  "jsonStreamReader_ReadRaw \<lparr>jr_src = \<lparr>pending = ''{a:1}'', final = EOF\<rparr>, lastErr = None\<rparr>
     = ((''{a:1}'', None), \<lparr>jr_src = \<lparr>pending = [], final = EOF\<rparr>, lastErr = Some EOF\<rparr>)
   \<and> jsonStreamReader_Read (Inr :: string \<Rightarrow> error + string)
        \<lparr>jr_src = \<lparr>pending = ''{a:1}'', final = EOF\<rparr>, lastErr = None\<rparr>
     = (Inr ''{a:1}'', \<lparr>jr_src = \<lparr>pending = [], final = EOF\<rparr>, lastErr = Some EOF\<rparr>)
   \<and> jsonStreamReader_ReadRaw \<lparr>jr_src = \<lparr>pending = [], final = EOF\<rparr>, lastErr = Some EOF\<rparr>
     = (([], Some EOF), \<lparr>jr_src = \<lparr>pending = [], final = EOF\<rparr>, lastErr = Some EOF\<rparr>)"
  using C8_final_line_without_newline
    [of "\<lparr>jr_src = \<lparr>pending = ''{a:1}'', final = EOF\<rparr>, lastErr = None\<rparr>" "''{a:1}''"
        "Inr :: string \<Rightarrow> error + string"]
  by simp

section \<open>Split and Join when an operation fails\<close>

lemmas io_eval =
  osOpen_def osCreate_def osRemove_def fwrite_def quiet_def HasSuffix_def ReadBytes_def
  ReadFull_def partName_def decimal.simps idMarshal_def PutUint32_def
  char_of_def bit_0

lemmas json_eval =
  SplitJsonFile_def JoinJsonFiles_def OpenJsonFile_def JsonFile_def jsonFileReader_ReadRaw_def
  NewJsonFile_def jsonFileWriter_WriteRaw_def Split_finish_def

lemmas proto_eval =
  SplitProtoFile_def JoinProtoFiles_def OpenProtoFile_def ProtoFile_def
  protoFileReader_ReadTo_def NewProtoFile_def protoFileWriter_Write_def Split_finish_def

lemmas csvsj_eval =
  SplitCsvFile_def JoinCsvFiles_def OpenCsvFile_def CsvFileReader_def csvFileReader_Read_def
  csvRead_def NewCsvFile_def csvFileWriter_Write_def csvw_Write_def csvLine_def csvField_def
  fieldNeedsQuotes_def spaceRunes_def Split_finish_def

text \<open>
  Claim C1 fails on the code for the object and the row format. With three records, limit 1
  and a part namer whose second path cannot be created, \<^verbatim>\<open>SplitJsonFile\<close> and
  \<^verbatim>\<open>SplitCsvFile\<close> return the first part with a nil error and leave its file in place;
  when every write to the second part fails, \<^verbatim>\<open>SplitJsonFile\<close> returns both parts with a
  nil error. Their loops assign a variable \<^verbatim>\<open>err\<close> of their own, so the clean-up after the
  loop never sees the failure. \<^verbatim>\<open>SplitProtoFile\<close>, whose loop assigns the function's
  \<^verbatim>\<open>err\<close>, does what the claim says on the same input: no parts, no part files, the
  create error.
\<close>

theorem C1_split_failure_keeps_parts:
  "(case SplitJsonFile ''in'' 1 partName
           ((quiet [''in'' \<mapsto> ''a'' @ [nl] @ ''b'' @ [nl] @ ''c'' @ [nl]])
              \<lparr>create_err := (\<lambda>p. if p = partName 2 then Some (OSError ''permission denied'')
                                   else None)\<rparr>) of
      Returns ((parts, err), w') \<Rightarrow> Some (parts, err, files w' (partName 1))
    | NilPanic \<Rightarrow> None)
   = Some ([partName 1], None, Some (''a'' @ [nl]))
  \<and> (case SplitJsonFile ''in'' 1 partName
           ((quiet [''in'' \<mapsto> ''a'' @ [nl] @ ''b'' @ [nl]])
              \<lparr>write_err := (\<lambda>p k. if p = partName 2
                                     then Some (OSError ''no space left on device'') else None)\<rparr>) of
      Returns ((parts, err), w') \<Rightarrow>
        Some (parts, err, files w' (partName 1), files w' (partName 2))
    | NilPanic \<Rightarrow> None)
   = Some ([partName 1, partName 2], None, Some (''a'' @ [nl]), Some [])
  \<and> (case SplitCsvFile ''in'' 1 partName
           ((quiet [''in'' \<mapsto> ''h'' @ [nl] @ ''a'' @ [nl] @ ''b'' @ [nl]])
              \<lparr>create_err := (\<lambda>p. if p = partName 2 then Some (OSError ''permission denied'')
                                   else None)\<rparr>) of
      Returns ((parts, err), w') \<Rightarrow> Some (parts, err, files w' (partName 1))
    | NilPanic \<Rightarrow> None)
   = Some ([partName 1], None, Some (''h'' @ [nl] @ ''a'' @ [nl]))
  \<and> (case SplitProtoFile idMarshal idMarshal ''in'' 1 partName
           ((quiet [''in'' \<mapsto> [CHR 0x00, CHR 0x00, CHR 0x00, CHR 0x01, CHR ''a'',
                                   CHR 0x00, CHR 0x00, CHR 0x00, CHR 0x01, CHR ''b'']])
              \<lparr>create_err := (\<lambda>p. if p = partName 2 then Some (OSError ''permission denied'')
                                   else None)\<rparr>) of
      Returns ((parts, err), w') \<Rightarrow> Some (parts, err, files w' (partName 1))
    | NilPanic \<Rightarrow> None)
   = Some ([], Some (Errorf ''file create error'' (partName 2) (OSError ''permission denied'')),
           None)"
proof (intro conjI)
  show "(case SplitJsonFile ''in'' 1 partName
           ((quiet [''in'' \<mapsto> ''a'' @ [nl] @ ''b'' @ [nl] @ ''c'' @ [nl]])
              \<lparr>create_err := (\<lambda>p. if p = partName 2 then Some (OSError ''permission denied'')
                                   else None)\<rparr>) of
      Returns ((parts, err), w') \<Rightarrow> Some (parts, err, files w' (partName 1))
    | NilPanic \<Rightarrow> None)
   = Some ([partName 1], None, Some (''a'' @ [nl]))"
    apply (simp add: json_eval io_eval)
    apply ((subst SplitJsonFile_loop.simps, simp add: json_eval io_eval)+)
    done
  show "(case SplitJsonFile ''in'' 1 partName
           ((quiet [''in'' \<mapsto> ''a'' @ [nl] @ ''b'' @ [nl]])
              \<lparr>write_err := (\<lambda>p k. if p = partName 2
                                     then Some (OSError ''no space left on device'') else None)\<rparr>) of
      Returns ((parts, err), w') \<Rightarrow>
        Some (parts, err, files w' (partName 1), files w' (partName 2))
    | NilPanic \<Rightarrow> None)
   = Some ([partName 1, partName 2], None, Some (''a'' @ [nl]), Some [])"
    apply (simp add: json_eval io_eval)
    apply ((subst SplitJsonFile_loop.simps, simp add: json_eval io_eval)+)
    done
  show "(case SplitCsvFile ''in'' 1 partName
           ((quiet [''in'' \<mapsto> ''h'' @ [nl] @ ''a'' @ [nl] @ ''b'' @ [nl]])
              \<lparr>create_err := (\<lambda>p. if p = partName 2 then Some (OSError ''permission denied'')
                                   else None)\<rparr>) of
      Returns ((parts, err), w') \<Rightarrow> Some (parts, err, files w' (partName 1))
    | NilPanic \<Rightarrow> None)
   = Some ([partName 1], None, Some (''h'' @ [nl] @ ''a'' @ [nl]))"
    apply (simp add: csvsj_eval io_eval)
    apply ((subst SplitCsvFile_loop.simps, simp add: csvsj_eval io_eval)+)
    done
  show "(case SplitProtoFile idMarshal idMarshal ''in'' 1 partName
           ((quiet [''in'' \<mapsto> [CHR 0x00, CHR 0x00, CHR 0x00, CHR 0x01, CHR ''a'',
                                   CHR 0x00, CHR 0x00, CHR 0x00, CHR 0x01, CHR ''b'']])
              \<lparr>create_err := (\<lambda>p. if p = partName 2 then Some (OSError ''permission denied'')
                                   else None)\<rparr>) of
      Returns ((parts, err), w') \<Rightarrow> Some (parts, err, files w' (partName 1))
    | NilPanic \<Rightarrow> None)
   = Some ([], Some (Errorf ''file create error'' (partName 2) (OSError ''permission denied'')),
           None)"
    apply (simp add: proto_eval io_eval)
    apply ((subst SplitProtoFile_loop.simps, simp add: proto_eval io_eval)+)
    done
qed

text \<open>
  Claim C2 fails on the code for the object and the row format. When the stream of the first
  part breaks off with a read error after its first record (a truncated compressed part,
  say), \<^verbatim>\<open>JoinJsonFiles\<close> goes on to the next part and returns nil; when a row of the
  first part does not parse, \<^verbatim>\<open>JoinCsvFiles\<close> drops the rest of that part and returns nil.
  Their inner loops declare an \<^verbatim>\<open>err\<close> of their own, so the test after the loop never sees
  the read error. \<^verbatim>\<open>JoinProtoFiles\<close>, whose inner loop assigns the part's \<^verbatim>\<open>err\<close>,
  returns the error with the path of the part, as the claim says.
\<close>

theorem C2_join_swallows_read_errors:
  "(case JoinJsonFiles ''out'' [''p1'', ''p2'']
          ((quiet [''p1'' \<mapsto> ''a'' @ [nl] @ ''b'', ''p2'' \<mapsto> ''c'' @ [nl]])
              \<lparr>read_final := (\<lambda>p. if p = ''p1'' then ErrUnexpectedEOF else EOF)\<rparr>) of
      (err, w') \<Rightarrow> (err, files w' ''out''))
   = (None, Some (''a'' @ [nl] @ ''c'' @ [nl]))
  \<and> (case JoinCsvFiles ''out'' [''p1'', ''p2'']
          (quiet [''p1'' \<mapsto> ''h'' @ [nl] @ ''a,b'' @ [nl] @ ''c'' @ [nl],
                  ''p2'' \<mapsto> ''h'' @ [nl] @ ''d'' @ [nl]]) of
      (err, w') \<Rightarrow> (err, files w' ''out''))
   = (None, Some (''h'' @ [nl] @ ''d'' @ [nl]))
  \<and> (case JoinProtoFiles idMarshal idMarshal ''out'' [''p1'', ''p2'']
          (quiet [''p1'' \<mapsto> [CHR 0x00, CHR 0x00, CHR 0x00, CHR 0x01, CHR ''a'',
                                   CHR 0x00, CHR 0x00, CHR 0x00, CHR 0x02, CHR ''b''],
                  ''p2'' \<mapsto> [CHR 0x00, CHR 0x00, CHR 0x00, CHR 0x01, CHR ''c'']]) of
      (err, w') \<Rightarrow> (err, files w' ''out''))
   = (Some (Errorf ''join read file'' ''p1'' ErrUnexpectedEOF),
      Some [CHR 0x00, CHR 0x00, CHR 0x00, CHR 0x01, CHR ''a''])"
proof (intro conjI)
  show "(case JoinJsonFiles ''out'' [''p1'', ''p2'']
          ((quiet [''p1'' \<mapsto> ''a'' @ [nl] @ ''b'', ''p2'' \<mapsto> ''c'' @ [nl]])
              \<lparr>read_final := (\<lambda>p. if p = ''p1'' then ErrUnexpectedEOF else EOF)\<rparr>) of
      (err, w') \<Rightarrow> (err, files w' ''out''))
   = (None, Some (''a'' @ [nl] @ ''c'' @ [nl]))"
    apply (simp add: json_eval io_eval)
    apply ((subst JoinJsonFiles_read.simps, simp add: json_eval io_eval)+)
    done
  show "(case JoinCsvFiles ''out'' [''p1'', ''p2'']
          (quiet [''p1'' \<mapsto> ''h'' @ [nl] @ ''a,b'' @ [nl] @ ''c'' @ [nl],
                  ''p2'' \<mapsto> ''h'' @ [nl] @ ''d'' @ [nl]]) of
      (err, w') \<Rightarrow> (err, files w' ''out''))
   = (None, Some (''h'' @ [nl] @ ''d'' @ [nl]))"
    apply (simp add: csvsj_eval io_eval)
    apply ((subst JoinCsvFiles_read.simps, simp add: csvsj_eval io_eval)+)
    done
  show "(case JoinProtoFiles idMarshal idMarshal ''out'' [''p1'', ''p2'']
          (quiet [''p1'' \<mapsto> [CHR 0x00, CHR 0x00, CHR 0x00, CHR 0x01, CHR ''a'',
                                   CHR 0x00, CHR 0x00, CHR 0x00, CHR 0x02, CHR ''b''],
                  ''p2'' \<mapsto> [CHR 0x00, CHR 0x00, CHR 0x00, CHR 0x01, CHR ''c'']]) of
      (err, w') \<Rightarrow> (err, files w' ''out''))
   = (Some (Errorf ''join read file'' ''p1'' ErrUnexpectedEOF),
      Some [CHR 0x00, CHR 0x00, CHR 0x00, CHR 0x01, CHR ''a''])"
    apply (simp add: proto_eval io_eval)
    apply ((subst JoinProtoFiles_read.simps, simp add: proto_eval io_eval)+)
    done
qed

section \<open>Split writes the chunks of the record sequence\<close>

lemma chunks_Nil [simp]: "chunks n [] = []"
  by (simp add: chunks.simps)

lemma chunks_Cons: "0 < n \<Longrightarrow> chunks n (x # xs) = (x # take (n - 1) xs) # chunks n (drop (n - 1) xs)"
  by (subst chunks.simps) (cases n; simp)

lemma part_paths_0 [simp]: "part_paths f pn 0 = []"
  by (simp add: part_paths_def)

lemma part_paths_Suc: "part_paths f pn (Suc k) = f pn # part_paths f (pn + 1) k"
proof -
  have "[0..<Suc k] = 0 # map Suc [0..<k]"
    by (simp add: upt_conv_Cons map_Suc_upt del: upt_Suc)
  then show ?thesis
    by (simp add: part_paths_def comp_def add.assoc del: upt_Suc)
qed

lemma split_rec_mid:
  assumes "1 \<le> cnt" "cnt \<le> L" "fs p = Some c"
  shows "split_rec f L hdr xs (Some p) pn cnt fs =
      (part_paths f pn (length (chunks (nat L) (drop (nat (L - cnt)) xs))),
       write_parts f hdr pn (chunks (nat L) (drop (nat (L - cnt)) xs))
         (fs(p \<mapsto> c @ concat (take (nat (L - cnt)) xs))))"
  using assms
proof (induction xs arbitrary: p pn cnt fs c)
  case Nil
  then show ?case by (simp add: map_upd_triv)
next
  case (Cons x xs)
  show ?case
  proof (cases "cnt = L")
    case True
    have L: "0 < nat L" "nat (L - 1) = nat L - 1" using Cons.prems True by auto
    have ih: "split_rec f L hdr xs (Some (f pn)) (pn + 1) 1 (fs(f pn \<mapsto> hdr @ x)) =
        (part_paths f (pn + 1) (length (chunks (nat L) (drop (nat (L - 1)) xs))),
         write_parts f hdr (pn + 1) (chunks (nat L) (drop (nat (L - 1)) xs))
           ((fs(f pn \<mapsto> hdr @ x))(f pn \<mapsto> (hdr @ x) @ concat (take (nat (L - 1)) xs))))"
      using Cons.prems True by (intro Cons.IH) auto
    show ?thesis
      using True Cons.prems L
      by (simp add: ih chunks_Cons part_paths_Suc map_upd_triv)
  next
    case False
    then have lt: "cnt < L" using Cons.prems by simp
    have n: "nat (L - cnt) = Suc (nat (L - (cnt + 1)))" using lt by simp
    have ih: "split_rec f L hdr xs (Some p) pn (cnt + 1) (fs(p \<mapsto> c @ x)) =
        (part_paths f pn (length (chunks (nat L) (drop (nat (L - (cnt + 1))) xs))),
         write_parts f hdr pn (chunks (nat L) (drop (nat (L - (cnt + 1))) xs))
           ((fs(p \<mapsto> c @ x))(p \<mapsto> (c @ x) @ concat (take (nat (L - (cnt + 1))) xs))))"
      using Cons.prems lt by (intro Cons.IH) auto
    have step: "split_rec f L hdr (x # xs) (Some p) pn cnt fs
        = split_rec f L hdr xs (Some p) pn (cnt + 1) (fs(p \<mapsto> c @ x))"
      using False Cons.prems(3) by simp
    show ?thesis
      unfolding step ih n
      apply (simp only: drop_Suc_Cons take_Suc_Cons concat.simps append_assoc fun_upd_upd)
      done
  qed
qed

lemma split_rec_init:
  assumes "0 < L"
  shows "split_rec f L hdr xs None 1 L fs =
      (part_paths f 1 (length (chunks (nat L) xs)), write_parts f hdr 1 (chunks (nat L) xs) fs)"
proof (cases xs)
  case Nil
  then show ?thesis by simp
next
  case (Cons x xs')
  have L: "0 < nat L" "nat (L - 1) = nat L - 1" using assms by auto
  have "split_rec f L hdr xs' (Some (f 1)) (1 + 1) 1 (fs(f 1 \<mapsto> hdr @ x)) =
        (part_paths f (1 + 1) (length (chunks (nat L) (drop (nat (L - 1)) xs'))),
         write_parts f hdr (1 + 1) (chunks (nat L) (drop (nat (L - 1)) xs'))
           ((fs(f 1 \<mapsto> hdr @ x))(f 1 \<mapsto> (hdr @ x) @ concat (take (nat (L - 1)) xs'))))"
    using assms by (intro split_rec_mid) auto
  then show ?thesis
    using Cons L by (simp add: chunks_Cons part_paths_Suc)
qed

lemma chunks_map: "chunks n (map g xs) = map (map g) (chunks n xs)"
proof (induction n xs rule: chunks.induct)
  case (1 n xs)
  show ?case
  proof (cases "n = 0 \<or> xs = []")
    case True
    then show ?thesis by (auto simp: chunks.simps)
  next
    case False
    then have "chunks n (drop n (map g xs)) = map (map g) (chunks n (drop n xs))"
      using 1 by (simp add: drop_map)
    then show ?thesis
      using False
      by (subst chunks.simps, subst (2) chunks.simps) (simp add: take_map drop_map)
  qed
qed

lemma concat_chunks: "0 < n \<Longrightarrow> concat (chunks n xs) = xs"
proof (induction n xs rule: chunks.induct)
  case (1 n xs)
  show ?case
  proof (cases "xs = []")
    case True
    then show ?thesis by simp
  next
    case False
    then show ?thesis
      using 1 by (subst chunks.simps) simp
  qed
qed

lemma write_parts_other:
  "p \<notin> set (part_paths f pn (length cs)) \<Longrightarrow> write_parts f hdr pn cs fs p = fs p"
proof (induction cs arbitrary: pn fs)
  case Nil
  then show ?case by simp
next
  case (Cons c cs)
  then show ?case by (simp add: part_paths_Suc)
qed

lemma write_parts_nth:
  "distinct (part_paths f pn (length cs)) \<Longrightarrow> i < length cs \<Longrightarrow>
   write_parts f hdr pn cs fs (f (pn + int i)) = Some (hdr @ concat (cs ! i))"
proof (induction cs arbitrary: pn fs i)
  case Nil
  then show ?case by simp
next
  case (Cons c cs)
  show ?case
  proof (cases i)
    case 0
    then show ?thesis
      using Cons.prems by (simp add: part_paths_Suc write_parts_other)
  next
    case (Suc j)
    have "write_parts f hdr (pn + 1) cs (fs(f pn \<mapsto> hdr @ concat c)) (f (pn + 1 + int j))
          = Some (hdr @ concat (cs ! j))"
      using Cons.prems Suc by (intro Cons.IH) (simp_all add: part_paths_Suc)
    then show ?thesis
      using Suc by (simp add: ac_simps)
  qed
qed

subsection \<open>Object format\<close>

lemma ReadRaw_line:
  "nl \<notin> set r \<Longrightarrow> pending (jr_src rd) = r @ nl # rest \<Longrightarrow> lastErr rd = None \<Longrightarrow>
   jsonFileReader_ReadRaw rd = ((r, None), rd\<lparr>jr_src := (jr_src rd)\<lparr>pending := rest\<rparr>\<rparr>)"
  by (simp add: jsonFileReader_ReadRaw_def ReadBytes_line[where x = r and rest = rest])

lemma ReadRaw_end:
  "pending (jr_src rd) = [] \<Longrightarrow> lastErr rd = None \<Longrightarrow>
   jsonFileReader_ReadRaw rd = (([], Some (final (jr_src rd))), rd)"
  by (simp add: jsonFileReader_ReadRaw_def ReadBytes_def)

lemma quiet_files [simp]: "files (quiet fs) = fs"
  by (simp add: quiet_def)

lemma quiet_update [simp]: "(quiet fs)\<lparr>files := fs'\<rparr> = quiet fs'"
  by (simp add: quiet_def)

lemma NewJsonFile_quiet:
  "NewJsonFile p (quiet fs) = (Inr \<lparr>jw_path = p, jw_count = 0\<rparr>, quiet (fs(p \<mapsto> [])))"
  by (simp add: NewJsonFile_def osCreate_def quiet_def)

lemma WriteRaw_quiet:
  "jsonFileWriter_WriteRaw wr raw (quiet fs) =
     (None, wr\<lparr>jw_count := jw_count wr + 1\<rparr>,
      quiet (case fs (jw_path wr) of None \<Rightarrow> fs | Some c \<Rightarrow> fs(jw_path wr \<mapsto> c @ raw @ [nl])))"
  by (simp add: jsonFileWriter_WriteRaw_def fwrite_def quiet_def split: option.splits)

lemma WriteRaw_new_quiet:
  "jsonFileWriter_WriteRaw \<lparr>jw_path = p, jw_count = 0\<rparr> raw (quiet (fs(p \<mapsto> []))) =
     (None, \<lparr>jw_path = p, jw_count = 0 + 1\<rparr>, quiet (fs(p \<mapsto> raw @ [nl])))"
  by (simp add: WriteRaw_quiet)

lemma SplitJsonFile_loop_quiet:
  assumes "\<forall>r \<in> set recs. nl \<notin> set r"
    and "pending (jr_src rd) = jsonLines recs" and "lastErr rd = None"
    and "cnt = L \<or> writer \<noteq> None"
  shows "\<exists>wo. SplitJsonFile_loop L f rd None writer parts pn cnt (quiet fs) =
      Returns (None, wo,
        parts @ fst (split_rec f L [] (map (\<lambda>r. r @ [nl]) recs) (map_option jw_path writer) pn cnt fs),
        quiet (snd (split_rec f L [] (map (\<lambda>r. r @ [nl]) recs) (map_option jw_path writer) pn cnt fs)))"
  using assms
proof (induction recs arbitrary: rd writer parts pn cnt fs)
  case Nil
  then have "jsonFileReader_ReadRaw rd = (([], Some (final (jr_src rd))), rd)"
    by (simp add: ReadRaw_end jsonLines_def)
  then show ?case
    by (subst SplitJsonFile_loop.simps) simp
next
  case (Cons r recs)
  let ?rd = "rd\<lparr>jr_src := (jr_src rd)\<lparr>pending := jsonLines recs\<rparr>\<rparr>"
  have rr: "jsonFileReader_ReadRaw rd = ((r, None), ?rd)"
    using Cons.prems by (intro ReadRaw_line) (simp_all add: jsonLines_def)
  have rd': "pending (jr_src ?rd) = jsonLines recs" "lastErr ?rd = None"
    using Cons.prems by simp_all
  have nlf: "\<forall>r \<in> set recs. nl \<notin> set r" using Cons.prems by simp
  show ?case
  proof (cases "cnt = L")
    case True
    let ?wr = "\<lparr>jw_path = f pn, jw_count = Suc 0\<rparr>"
    have w: "1 = L \<or> Some ?wr \<noteq> None" by simp
    obtain wo where ih: "SplitJsonFile_loop L f ?rd None (Some ?wr) (parts @ [f pn]) (pn + 1) 1
          (quiet (fs(f pn \<mapsto> r @ [nl]))) =
        Returns (None, wo,
          parts @ f pn # fst (split_rec f L [] (map (\<lambda>r. r @ [nl]) recs)
               (Some (f pn)) (pn + 1) 1 (fs(f pn \<mapsto> r @ [nl]))),
          quiet (snd (split_rec f L [] (map (\<lambda>r. r @ [nl]) recs)
               (Some (f pn)) (pn + 1) 1 (fs(f pn \<mapsto> r @ [nl])))))"
      using Cons.IH[OF nlf rd' w, where parts = "parts @ [f pn]"
          and pn = "pn + 1" and fs = "fs(f pn \<mapsto> r @ [nl])"]
      by (auto simp del: fun_upd_apply)
    show ?thesis
      apply (subst SplitJsonFile_loop.simps)
      apply (simp add: rr True NewJsonFile_quiet WriteRaw_new_quiet case_prod_beta
               del: fun_upd_apply)
      apply (rule exI[of _ wo])
      apply (rule ih)
      done
  next
    case False
    then obtain wr where wr: "writer = Some wr" using Cons.prems by auto
    let ?wr = "wr\<lparr>jw_count := Suc (jw_count wr)\<rparr>"
    let ?fs = "case fs (jw_path wr) of None \<Rightarrow> fs | Some c \<Rightarrow> fs(jw_path wr \<mapsto> c @ r @ [nl])"
    have w: "cnt + 1 = L \<or> Some ?wr \<noteq> None" by simp
    obtain wo where ih: "SplitJsonFile_loop L f ?rd None (Some ?wr) parts pn (cnt + 1) (quiet ?fs) =
        Returns (None, wo,
          parts @ fst (split_rec f L [] (map (\<lambda>r. r @ [nl]) recs)
               (Some (jw_path wr)) pn (cnt + 1) ?fs),
          quiet (snd (split_rec f L [] (map (\<lambda>r. r @ [nl]) recs)
               (Some (jw_path wr)) pn (cnt + 1) ?fs)))"
      using Cons.IH[OF nlf rd' w, where parts = parts and pn = pn and fs = ?fs]
      by (auto simp del: fun_upd_apply)
    show ?thesis
      apply (subst SplitJsonFile_loop.simps)
      apply (simp add: rr False wr WriteRaw_quiet del: fun_upd_apply)
      apply (rule exI[of _ wo])
      apply (rule ih)
      done
  qed
qed

lemma chunks_subset: "c \<in> set (chunks n xs) \<Longrightarrow> set c \<subseteq> set xs"
proof (induction n xs rule: chunks.induct)
  case (1 n xs)
  show ?case
  proof (cases "n = 0 \<or> xs = []")
    case True
    then show ?thesis using "1.prems" by (auto simp: chunks.simps)
  next
    case False
    then have "c = take n xs \<or> c \<in> set (chunks n (drop n xs))"
      using "1.prems" by (subst (asm) chunks.simps) auto
    then show ?thesis
      using 1(1)[OF False] by (auto dest: in_set_takeD in_set_dropD)
  qed
qed

lemma jsonLines_Nil [simp]: "jsonLines [] = []"
  by (simp add: jsonLines_def)

lemma jsonLines_Cons: "jsonLines (r # recs) = r @ nl # jsonLines recs"
  by (simp add: jsonLines_def)

lemma jsonLines_append [simp]: "jsonLines (xs @ ys) = jsonLines xs @ jsonLines ys"
  by (simp add: jsonLines_def)

lemma OpenJsonFile_quiet:
  "fs p = Some content \<Longrightarrow>
   OpenJsonFile p (quiet fs) =
     Inr \<lparr>jr_src = \<lparr>pending = content, final = EOF\<rparr>, lastErr = None\<rparr>"
  by (simp add: OpenJsonFile_def osOpen_def JsonFile_def quiet_def Let_def)

lemma Split_finish_ok [simp]: "Split_finish None parts w = ((parts, None), w)"
  by (simp add: Split_finish_def)

lemma SplitJsonFile_quiet:
  assumes "0 < L" and "fs input = Some (jsonLines recs)" and "\<forall>r \<in> set recs. nl \<notin> set r"
  shows "SplitJsonFile input L f (quiet fs) =
     Returns ((part_paths f 1 (length (chunks (nat L) recs)), None),
              quiet (write_parts f [] 1 (map (map (\<lambda>r. r @ [nl])) (chunks (nat L) recs)) fs))"
proof -
  let ?rd = "\<lparr>jr_src = \<lparr>pending = jsonLines recs, final = EOF\<rparr>, lastErr = None\<rparr>"
  obtain wo where lp: "SplitJsonFile_loop L f ?rd None None [] 1 L (quiet fs) =
      Returns (None, wo,
        [] @ fst (split_rec f L [] (map (\<lambda>r. r @ [nl]) recs) (map_option jw_path None) 1 L fs),
        quiet (snd (split_rec f L [] (map (\<lambda>r. r @ [nl]) recs) (map_option jw_path None) 1 L fs)))"
    using SplitJsonFile_loop_quiet[OF assms(3), of ?rd L L None f "[]" 1 fs] by auto
  show ?thesis
    using assms(1)
    by (simp add: SplitJsonFile_def OpenJsonFile_quiet[where fs = fs, OF assms(2)] lp
          split_rec_init chunks_map)
qed

lemma JoinJsonFiles_read_quiet:
  assumes "\<forall>r \<in> set recs. nl \<notin> set r"
    and "pending (jr_src rd) = jsonLines recs" and "lastErr rd = None"
    and "fs (jw_path wr) = Some c"
  shows "\<exists>wr'. jw_path wr' = jw_path wr \<and>
     JoinJsonFiles_read out rd wr (quiet fs) =
       (Inr wr', quiet (fs(jw_path wr \<mapsto> c @ jsonLines recs)))"
  using assms
proof (induction recs arbitrary: rd wr fs c)
  case Nil
  then have "jsonFileReader_ReadRaw rd = (([], Some (final (jr_src rd))), rd)"
    by (simp add: ReadRaw_end jsonLines_def)
  then show ?case
    using Nil.prems
    by (subst JoinJsonFiles_read.simps) (simp add: jsonLines_def map_upd_triv)
next
  case (Cons r recs)
  let ?rd = "rd\<lparr>jr_src := (jr_src rd)\<lparr>pending := jsonLines recs\<rparr>\<rparr>"
  let ?wr = "wr\<lparr>jw_count := Suc (jw_count wr)\<rparr>"
  let ?fs = "fs(jw_path wr \<mapsto> c @ r @ [nl])"
  have rr: "jsonFileReader_ReadRaw rd = ((r, None), ?rd)"
    using Cons.prems by (intro ReadRaw_line) (simp_all add: jsonLines_def)
  have rd': "pending (jr_src ?rd) = jsonLines recs" "lastErr ?rd = None"
    using Cons.prems by simp_all
  have nlf: "\<forall>r \<in> set recs. nl \<notin> set r" using Cons.prems by simp
  have c': "?fs (jw_path ?wr) = Some (c @ r @ [nl])" by simp
  have wq: "jsonFileWriter_WriteRaw wr r (quiet fs) = (None, ?wr, quiet ?fs)"
    using Cons.prems(4) by (simp add: WriteRaw_quiet)
  obtain wr' where ih: "jw_path wr' = jw_path ?wr"
      "JoinJsonFiles_read out ?rd ?wr (quiet ?fs) =
         (Inr wr', quiet (?fs(jw_path ?wr \<mapsto> (c @ r @ [nl]) @ jsonLines recs)))"
    using Cons.IH[where fs = ?fs and wr = ?wr and rd = ?rd and c = "c @ r @ [nl]", OF nlf rd' c']
    by blast
  have e: "?fs(jw_path ?wr \<mapsto> (c @ r @ [nl]) @ jsonLines recs)
           = fs(jw_path wr \<mapsto> c @ jsonLines (r # recs))"
    by (simp add: jsonLines_def)
  show ?case
    apply (subst JoinJsonFiles_read.simps)
    apply (simp only: rr wq prod.case option.case)
    apply (rule exI[of _ wr'])
    using ih e apply simp
    done
qed

lemma JoinJsonFiles_parts_quiet:
  assumes "\<forall>(p, rs) \<in> set ps. p \<noteq> out \<and> fs p = Some (jsonLines rs) \<and> (\<forall>r \<in> set rs. nl \<notin> set r)"
    and "jw_path wr = out" and "fs out = Some c"
  shows "JoinJsonFiles_parts out wr (map fst ps) (quiet fs) =
     (None, quiet (fs(out \<mapsto> c @ jsonLines (concat (map snd ps)))))"
  using assms
proof (induction ps arbitrary: wr fs c)
  case Nil
  then show ?case by (simp add: map_upd_triv del: fun_upd_apply)
next
  case (Cons a ps)
  obtain p rs where a: "a = (p, rs)" by (cases a)
  have p: "p \<noteq> out" "fs p = Some (jsonLines rs)" "\<forall>r \<in> set rs. nl \<notin> set r"
    using Cons.prems(1) a by auto
  let ?rd = "\<lparr>jr_src = \<lparr>pending = jsonLines rs, final = EOF\<rparr>, lastErr = None\<rparr>"
  let ?fs = "fs(out \<mapsto> c @ jsonLines rs)"
  have c: "fs (jw_path wr) = Some c" using Cons.prems by simp
  obtain wr' where rd: "jw_path wr' = out"
      "JoinJsonFiles_read out ?rd wr (quiet fs) = (Inr wr', quiet ?fs)"
    using JoinJsonFiles_read_quiet[where fs = fs and wr = wr and rd = ?rd and c = c
        and recs = rs and out = out, OF p(3) _ _ c] Cons.prems(2)
    by auto
  have rest: "\<forall>(p, rs) \<in> set ps. p \<noteq> out \<and> ?fs p = Some (jsonLines rs) \<and> (\<forall>r \<in> set rs. nl \<notin> set r)"
    using Cons.prems(1) by auto
  have ih: "JoinJsonFiles_parts out wr' (map fst ps) (quiet ?fs) =
     (None, quiet (?fs(out \<mapsto> (c @ jsonLines rs) @ jsonLines (concat (map snd ps)))))"
  proof -
    have c2: "?fs out = Some (c @ jsonLines rs)" by simp
    show ?thesis
      using Cons.IH[where fs = ?fs and wr = wr' and c = "c @ jsonLines rs", OF rest rd(1) c2]
      by (simp del: fun_upd_apply)
  qed
  show ?case
    by (simp add: a OpenJsonFile_quiet[where fs = fs, OF p(2)] rd(2) ih del: fun_upd_apply)
qed

lemma JoinJsonFiles_quiet:
  assumes "\<forall>(p, rs) \<in> set ps. p \<noteq> out \<and> fs p = Some (jsonLines rs) \<and> (\<forall>r \<in> set rs. nl \<notin> set r)"
  shows "JoinJsonFiles out (map fst ps) (quiet fs) =
     (None, quiet (fs(out \<mapsto> jsonLines (concat (map snd ps)))))"
proof -
  let ?fs = "fs(out \<mapsto> [])"
  have a: "\<forall>(p, rs) \<in> set ps. p \<noteq> out \<and> ?fs p = Some (jsonLines rs) \<and> (\<forall>r \<in> set rs. nl \<notin> set r)"
    using assms by auto
  have "JoinJsonFiles_parts out \<lparr>jw_path = out, jw_count = 0\<rparr> (map fst ps) (quiet ?fs) =
     (None, quiet (?fs(out \<mapsto> [] @ jsonLines (concat (map snd ps)))))"
  proof -
    have c2: "?fs out = Some []" by simp
    have w2: "jw_path \<lparr>jw_path = out, jw_count = 0\<rparr> = out" by simp
    show ?thesis
      using JoinJsonFiles_parts_quiet[where fs = ?fs and c = "[]" and out = out and ps = ps
          and wr = "\<lparr>jw_path = out, jw_count = 0\<rparr>", OF a w2 c2]
      by (simp del: fun_upd_apply)
  qed
  then show ?thesis
    by (simp add: JoinJsonFiles_def NewJsonFile_quiet)
qed

subsection \<open>Message format\<close>

lemma of_char_char_of_word: "(of_char (char_of (unat (w :: 32 word))) :: 32 word) = take_bit 8 w"
proof -
  have "(of_char (char_of (unat w)) :: 32 word) = word_of_nat (of_char (char_of (unat w)))"
    by (simp add: of_char_def)
  also have "\<dots> = word_of_nat (take_bit 8 (unat w))"
    by (simp add: take_bit_eq_mod)
  also have "\<dots> = take_bit 8 w"
    by (simp add: of_nat_take_bit)
  finally show ?thesis .
qed

lemma Uint32_PutUint32: "Uint32 (PutUint32 v) = v"
  apply (simp add: PutUint32_def of_char_char_of_word)
  apply (rule bit_word_eqI)
  apply (auto simp add: bit_simps)
  subgoal for n by (cases "24 \<le> n") auto
  done

lemma length_PutUint32 [simp]: "length (PutUint32 v) = 4"
  by (simp add: PutUint32_def)

lemma unat_length: "n < 2 ^ 32 \<Longrightarrow> unat (word_of_nat n :: 32 word) = n"
  by (simp add: unat_of_nat take_bit_nat_eq_self)

lemma frames_Nil [simp]: "frames [] = []"
  by (simp add: frames_def)

lemma frames_Cons: "frames (b # bs) = frame b @ frames bs"
  by (simp add: frames_def)

lemma frames_append [simp]: "frames (xs @ ys) = frames xs @ frames ys"
  by (simp add: frames_def)

lemma ReadTo_frame:
  assumes "pending s = frame b @ rest" and "length b < 2 ^ 32"
  shows "protoFileReader_ReadTo unmarshal s = (unmarshal b, s\<lparr>pending := rest\<rparr>)"
proof -
  let ?p = "PutUint32 (word_of_nat (length b))"
  let ?s1 = "s\<lparr>pending := b @ rest\<rparr>"
  have 1: "ReadFull 4 s = ((?p, None), ?s1)"
    using assms(1) by (simp add: ReadFull_def frame_def)
  have n: "unat (Uint32 ?p) = length b"
    using assms(2) by (simp add: Uint32_PutUint32 unat_length)
  have 2: "ReadFull (length b) ?s1 = ((b, None), s\<lparr>pending := rest\<rparr>)"
    using assms(1) by (cases "b = []") (simp_all add: ReadFull_def)
  show ?thesis
    by (simp add: protoFileReader_ReadTo_def 1 n 2)
qed

lemma ReadTo_end:
  "pending s = [] \<Longrightarrow> protoFileReader_ReadTo unmarshal s = (Inl (final s), s)"
  by (simp add: protoFileReader_ReadTo_def ReadFull_def)

lemma OpenProtoFile_quiet:
  "fs p = Some content \<Longrightarrow>
   OpenProtoFile p (quiet fs) = Inr \<lparr>pending = content, final = EOF\<rparr>"
  by (simp add: OpenProtoFile_def osOpen_def ProtoFile_def quiet_def Let_def)

lemma NewProtoFile_quiet:
  "NewProtoFile p (quiet fs) = (Inr \<lparr>pw_path = p, pw_count = 0\<rparr>, quiet (fs(p \<mapsto> [])))"
  by (simp add: NewProtoFile_def osCreate_def quiet_def)

lemma protoWrite_quiet:
  "marshal m = Inr b \<Longrightarrow>
   protoFileWriter_Write marshal wr m (quiet fs) =
     ((b, None), wr\<lparr>pw_count := pw_count wr + 2\<rparr>,
      quiet (case fs (pw_path wr) of None \<Rightarrow> fs | Some c \<Rightarrow> fs(pw_path wr \<mapsto> c @ frame b)))"
  by (simp add: protoFileWriter_Write_def fwrite_def quiet_def frame_def Let_def
        split: option.splits)

lemma protoWrite_new_quiet:
  "marshal m = Inr b \<Longrightarrow>
   protoFileWriter_Write marshal \<lparr>pw_path = p, pw_count = 0\<rparr> m (quiet (fs(p \<mapsto> []))) =
     ((b, None), \<lparr>pw_path = p, pw_count = 2\<rparr>, quiet (fs(p \<mapsto> frame b)))"
  by (simp add: protoWrite_quiet)

lemma SplitProtoFile_loop_quiet:
  assumes "list_all (stable um mar) blobs"
    and "pending rd = frames blobs"
    and "cnt = L \<or> writer \<noteq> None"
  shows "\<exists>wo. SplitProtoFile_loop um mar L f rd None writer parts pn cnt (quiet fs) =
      Returns (Some (final rd), wo,
        parts @ fst (split_rec f L [] (map frame blobs) (map_option pw_path writer) pn cnt fs),
        quiet (snd (split_rec f L [] (map frame blobs) (map_option pw_path writer) pn cnt fs)))"
  using assms
proof (induction blobs arbitrary: rd writer parts pn cnt fs)
  case Nil
  then have "protoFileReader_ReadTo um rd = (Inl (final rd), rd)"
    by (simp add: ReadTo_end)
  then show ?case
    by (subst SplitProtoFile_loop.simps) simp
next
  case (Cons b blobs)
  let ?rd = "rd\<lparr>pending := frames blobs\<rparr>"
  obtain m where m: "um b = Inr m" "mar m = Inr b" and len: "length b < 2 ^ 32"
    using Cons.prems(1) by (auto simp: stable_def split: sum.splits)
  have rr: "protoFileReader_ReadTo um rd = (Inr m, ?rd)"
    using ReadTo_frame[where s = rd and b = b and rest = "frames blobs" and unmarshal = um]
      Cons.prems(2) len m(1)
    by (simp add: frames_Cons)
  have rd': "pending ?rd = frames blobs" by simp
  have fin: "final ?rd = final rd" by simp
  have st: "list_all (stable um mar) blobs" using Cons.prems by simp
  show ?case
  proof (cases "cnt = L")
    case True
    let ?wr = "\<lparr>pw_path = f pn, pw_count = 2\<rparr>"
    have w: "1 = L \<or> Some ?wr \<noteq> None" by simp
    obtain wo where ih: "SplitProtoFile_loop um mar L f ?rd None (Some ?wr) (parts @ [f pn]) (pn + 1) 1
          (quiet (fs(f pn \<mapsto> frame b))) =
        Returns (Some (final rd), wo,
          parts @ f pn # fst (split_rec f L [] (map frame blobs)
               (Some (f pn)) (pn + 1) 1 (fs(f pn \<mapsto> frame b))),
          quiet (snd (split_rec f L [] (map frame blobs)
               (Some (f pn)) (pn + 1) 1 (fs(f pn \<mapsto> frame b)))))"
      using Cons.IH[OF st rd' w, where parts = "parts @ [f pn]"
          and pn = "pn + 1" and fs = "fs(f pn \<mapsto> frame b)"]
      by (auto simp del: fun_upd_apply)
    show ?thesis
      apply (subst SplitProtoFile_loop.simps)
      apply (simp add: rr True NewProtoFile_quiet protoWrite_new_quiet[where marshal = mar and m = m, OF m(2)] case_prod_beta
               del: fun_upd_apply)
      apply (rule exI[of _ wo])
      apply (insert ih)
      apply (simp del: fun_upd_apply)
      done
  next
    case False
    then obtain wr where wr: "writer = Some wr" using Cons.prems by auto
    let ?wr = "wr\<lparr>pw_count := pw_count wr + 2\<rparr>"
    let ?fs = "case fs (pw_path wr) of None \<Rightarrow> fs | Some c \<Rightarrow> fs(pw_path wr \<mapsto> c @ frame b)"
    have w: "cnt + 1 = L \<or> Some ?wr \<noteq> None" by simp
    obtain wo where ih: "SplitProtoFile_loop um mar L f ?rd None (Some ?wr) parts pn (cnt + 1) (quiet ?fs) =
        Returns (Some (final rd), wo,
          parts @ fst (split_rec f L [] (map frame blobs)
               (Some (pw_path wr)) pn (cnt + 1) ?fs),
          quiet (snd (split_rec f L [] (map frame blobs)
               (Some (pw_path wr)) pn (cnt + 1) ?fs)))"
      using Cons.IH[OF st rd' w, where parts = parts and pn = pn and fs = ?fs]
      by (auto simp del: fun_upd_apply)
    show ?thesis
      apply (subst SplitProtoFile_loop.simps)
      apply (simp add: rr False wr protoWrite_quiet[where marshal = mar and m = m, OF m(2)] del: fun_upd_apply)
      apply (rule exI[of _ wo])
      apply (insert ih)
      apply (simp del: fun_upd_apply)
      done
  qed
qed

lemma Split_finish_EOF [simp]: "Split_finish (Some EOF) parts w = ((parts, None), w)"
  by (simp add: Split_finish_def)

lemma SplitProtoFile_quiet:
  assumes "0 < L" and "fs input = Some (frames blobs)" and "list_all (stable um mar) blobs"
  shows "SplitProtoFile um mar input L f (quiet fs) =
     Returns ((part_paths f 1 (length (chunks (nat L) blobs)), None),
              quiet (write_parts f [] 1 (map (map frame) (chunks (nat L) blobs)) fs))"
proof -
  let ?rd = "\<lparr>pending = frames blobs, final = EOF\<rparr>"
  have p: "pending ?rd = frames blobs" by simp
  have w: "L = L \<or> (None :: protoFileWriter option) \<noteq> None" by simp
  obtain wo where lp: "SplitProtoFile_loop um mar L f ?rd None None [] 1 L (quiet fs) =
      Returns (Some EOF, wo,
        fst (split_rec f L [] (map frame blobs) None 1 L fs),
        quiet (snd (split_rec f L [] (map frame blobs) None 1 L fs)))"
    using SplitProtoFile_loop_quiet[OF assms(3) p w, where parts = "[]" and pn = 1 and fs = fs
        and f = f]
    by (auto simp del: fun_upd_apply)
  show ?thesis
    using assms(1)
    by (simp add: SplitProtoFile_def OpenProtoFile_quiet[where fs = fs, OF assms(2)] lp
          split_rec_init chunks_map)
qed

lemma JoinProtoFiles_read_quiet:
  assumes "list_all (stable um mar) blobs"
    and "pending rd = frames blobs"
    and "fs (pw_path wr) = Some c"
  shows "\<exists>wr'. pw_path wr' = pw_path wr \<and>
     JoinProtoFiles_read um mar out rd wr (quiet fs) =
       (Inr (final rd, wr'), quiet (fs(pw_path wr \<mapsto> c @ frames blobs)))"
  using assms
proof (induction blobs arbitrary: rd wr fs c)
  case Nil
  then have "protoFileReader_ReadTo um rd = (Inl (final rd), rd)"
    by (simp add: ReadTo_end)
  then show ?case
    using Nil.prems
    by (subst JoinProtoFiles_read.simps) (simp add: map_upd_triv del: fun_upd_apply)
next
  case (Cons b blobs)
  let ?rd = "rd\<lparr>pending := frames blobs\<rparr>"
  let ?wr = "wr\<lparr>pw_count := pw_count wr + 2\<rparr>"
  let ?fs = "fs(pw_path wr \<mapsto> c @ frame b)"
  obtain m where m: "um b = Inr m" "mar m = Inr b" and len: "length b < 2 ^ 32"
    using Cons.prems(1) by (auto simp: stable_def split: sum.splits)
  have rr: "protoFileReader_ReadTo um rd = (Inr m, ?rd)"
    using ReadTo_frame[where s = rd and b = b and rest = "frames blobs" and unmarshal = um]
      Cons.prems(2) len m(1)
    by (simp add: frames_Cons)
  have rd': "pending ?rd = frames blobs" by simp
  have st: "list_all (stable um mar) blobs" using Cons.prems by simp
  have c': "?fs (pw_path ?wr) = Some (c @ frame b)" by simp
  have wq: "protoFileWriter_Write mar wr m (quiet fs) = ((b, None), ?wr, quiet ?fs)"
    using Cons.prems(3) by (simp add: protoWrite_quiet[where marshal = mar and m = m, OF m(2)])
  obtain wr' where ih: "pw_path wr' = pw_path ?wr"
      "JoinProtoFiles_read um mar out ?rd ?wr (quiet ?fs) =
         (Inr (final ?rd, wr'), quiet (?fs(pw_path ?wr \<mapsto> (c @ frame b) @ frames blobs)))"
    using Cons.IH[where fs = ?fs and wr = ?wr and rd = ?rd and c = "c @ frame b", OF st rd' c']
    by blast
  have e: "?fs(pw_path ?wr \<mapsto> (c @ frame b) @ frames blobs)
           = fs(pw_path wr \<mapsto> c @ frames (b # blobs))"
    by (simp add: frames_Cons)
  show ?case
    apply (subst JoinProtoFiles_read.simps)
    apply (simp only: rr wq prod.case option.case sum.case)
    apply (rule exI[of _ wr'])
    using ih e apply simp
    done
qed

lemma JoinProtoFiles_parts_quiet:
  assumes "\<forall>(p, bs) \<in> set ps. p \<noteq> out \<and> fs p = Some (frames bs) \<and> list_all (stable um mar) bs"
    and "pw_path wr = out" and "fs out = Some c"
  shows "JoinProtoFiles_parts um mar out wr (map fst ps) (quiet fs) =
     (None, quiet (fs(out \<mapsto> c @ frames (concat (map snd ps)))))"
  using assms
proof (induction ps arbitrary: wr fs c)
  case Nil
  then show ?case by (simp add: map_upd_triv del: fun_upd_apply)
next
  case (Cons a ps)
  obtain p bs where a: "a = (p, bs)" by (cases a)
  have p: "p \<noteq> out" "fs p = Some (frames bs)" "list_all (stable um mar) bs"
    using Cons.prems(1) a by auto
  let ?rd = "\<lparr>pending = frames bs, final = EOF\<rparr>"
  let ?fs = "fs(out \<mapsto> c @ frames bs)"
  have c: "fs (pw_path wr) = Some c" using Cons.prems by simp
  have pr: "pending ?rd = frames bs" by simp
  obtain wr' where rd: "pw_path wr' = out"
      "JoinProtoFiles_read um mar out ?rd wr (quiet fs) = (Inr (EOF, wr'), quiet ?fs)"
    using JoinProtoFiles_read_quiet[where fs = fs and wr = wr and rd = ?rd and c = c
        and blobs = bs and out = out, OF p(3) pr c] Cons.prems(2)
    by auto
  have rest: "\<forall>(p, bs) \<in> set ps. p \<noteq> out \<and> ?fs p = Some (frames bs) \<and> list_all (stable um mar) bs"
    using Cons.prems(1) by auto
  have ih: "JoinProtoFiles_parts um mar out wr' (map fst ps) (quiet ?fs) =
     (None, quiet (?fs(out \<mapsto> (c @ frames bs) @ frames (concat (map snd ps)))))"
  proof -
    have c2: "?fs out = Some (c @ frames bs)" by simp
    show ?thesis
      using Cons.IH[where fs = ?fs and wr = wr' and c = "c @ frames bs", OF rest rd(1) c2]
      by (simp del: fun_upd_apply)
  qed
  show ?case
    by (simp add: a OpenProtoFile_quiet[where fs = fs, OF p(2)] rd(2) ih del: fun_upd_apply)
qed

lemma JoinProtoFiles_quiet:
  assumes "\<forall>(p, bs) \<in> set ps. p \<noteq> out \<and> fs p = Some (frames bs) \<and> list_all (stable um mar) bs"
  shows "JoinProtoFiles um mar out (map fst ps) (quiet fs) =
     (None, quiet (fs(out \<mapsto> frames (concat (map snd ps)))))"
proof -
  let ?fs = "fs(out \<mapsto> [])"
  have a: "\<forall>(p, bs) \<in> set ps. p \<noteq> out \<and> ?fs p = Some (frames bs) \<and> list_all (stable um mar) bs"
    using assms by auto
  have "JoinProtoFiles_parts um mar out \<lparr>pw_path = out, pw_count = 0\<rparr> (map fst ps) (quiet ?fs) =
     (None, quiet (?fs(out \<mapsto> [] @ frames (concat (map snd ps)))))"
  proof -
    have c2: "?fs out = Some []" by simp
    have w2: "pw_path \<lparr>pw_path = out, pw_count = 0\<rparr> = out" by simp
    show ?thesis
      using JoinProtoFiles_parts_quiet[where fs = ?fs and c = "[]" and out = out and ps = ps
          and wr = "\<lparr>pw_path = out, pw_count = 0\<rparr>", OF a w2 c2]
      by (simp del: fun_upd_apply)
  qed
  then show ?thesis
    by (simp add: JoinProtoFiles_def NewProtoFile_quiet)
qed

subsection \<open>Row format\<close>

lemma csvLines_Nil [simp]: "csvLines [] = []"
  by (simp add: csvLines_def)

lemma csvLines_Cons: "csvLines (r # rows) = csvLine r @ csvLines rows"
  by (simp add: csvLines_def)

lemma csvLines_append [simp]: "csvLines (xs @ ys) = csvLines xs @ csvLines ys"
  by (simp add: csvLines_def)

lemma OpenCsvFile_quiet:
  "fs p = Some content \<Longrightarrow> OpenCsvFile p [] (quiet fs) = Inr (csvOn content)"
  by (simp add: OpenCsvFile_def osOpen_def CsvFileReader_def quiet_def Let_def csvOn_def)

lemma NewCsvFile_quiet:
  "NewCsvFile p [] (quiet fs) =
     (Inr \<lparr>cw_path = p, cw_count = 0, cw_valueProcessors = []\<rparr>, quiet (fs(p \<mapsto> [])))"
  by (simp add: NewCsvFile_def osCreate_def quiet_def)

lemma csvWrite_quiet:
  "cw_valueProcessors wr = [] \<Longrightarrow>
   csvFileWriter_Write wr row (quiet fs) =
     (None, wr\<lparr>cw_count := cw_count wr + 1\<rparr>,
      quiet (case fs (cw_path wr) of None \<Rightarrow> fs | Some c \<Rightarrow> fs(cw_path wr \<mapsto> c @ csvLine row)))"
  by (simp add: csvFileWriter_Write_def csvw_Write_def fwrite_def quiet_def split: option.splits)

lemma csvWrite_new_quiet:
  "csvFileWriter_Write \<lparr>cw_path = p, cw_count = 0, cw_valueProcessors = []\<rparr> header
       (quiet (fs(p \<mapsto> []))) =
     (None, \<lparr>cw_path = p, cw_count = 1, cw_valueProcessors = []\<rparr>,
      quiet (fs(p \<mapsto> csvLine header)))"
  by (simp add: csvWrite_quiet)

lemma csvWrite_new2_quiet:
  "csvFileWriter_Write \<lparr>cw_path = p, cw_count = Suc 0, cw_valueProcessors = []\<rparr> row
       (quiet (fs(p \<mapsto> csvLine header))) =
     (None, \<lparr>cw_path = p, cw_count = Suc (Suc 0), cw_valueProcessors = []\<rparr>,
      quiet (fs(p \<mapsto> csvLine header @ csvLine row)))"
  by (simp add: csvWrite_quiet)

lemma csvReadAll_Cons:
  assumes "csvReadAll rd = (r # rs, e)"
  shows "\<exists>rd'. csvFileReader_Read rd = ((r, None), rd') \<and> csvReadAll rd' = (rs, e)"
  using assms
  by (subst (asm) csvReadAll.simps) (auto split: prod.splits option.splits)

lemma csvReadAll_Nil:
  assumes "csvReadAll rd = ([], e)"
  shows "\<exists>row rd'. csvFileReader_Read rd = ((row, Some e), rd')"
  using assms
  by (subst (asm) csvReadAll.simps) (auto split: prod.splits option.splits)

lemma SplitCsvFile_loop_quiet:
  assumes "csvReadAll rd = (rows, e)"
    and "cnt = L \<or> (\<exists>wr. writer = Some wr \<and> cw_valueProcessors wr = [])"
  shows "\<exists>wo. SplitCsvFile_loop L f header rd None writer parts pn cnt (quiet fs) =
      Returns (None, wo,
        parts @ fst (split_rec f L (csvLine header) (map csvLine rows)
                       (map_option cw_path writer) pn cnt fs),
        quiet (snd (split_rec f L (csvLine header) (map csvLine rows)
                       (map_option cw_path writer) pn cnt fs)))"
  using assms
proof (induction rows arbitrary: rd writer parts pn cnt fs)
  case Nil
  then obtain row rd' where "csvFileReader_Read rd = ((row, Some e), rd')"
    using csvReadAll_Nil by blast
  then show ?case
    by (subst SplitCsvFile_loop.simps) simp
next
  case (Cons r rows)
  obtain rd' where rr: "csvFileReader_Read rd = ((r, None), rd')" and ra: "csvReadAll rd' = (rows, e)"
    using csvReadAll_Cons[OF Cons.prems(1)] by blast
  show ?case
  proof (cases "cnt = L")
    case True
    let ?wr = "\<lparr>cw_path = f pn, cw_count = Suc (Suc 0), cw_valueProcessors = []\<rparr>"
    have w: "1 = L \<or> (\<exists>wr. Some ?wr = Some wr \<and> cw_valueProcessors wr = [])" by simp
    obtain wo where ih: "SplitCsvFile_loop L f header rd' None (Some ?wr) (parts @ [f pn]) (pn + 1) 1
          (quiet (fs(f pn \<mapsto> csvLine header @ csvLine r))) =
        Returns (None, wo,
          parts @ f pn # fst (split_rec f L (csvLine header) (map csvLine rows)
               (Some (f pn)) (pn + 1) 1 (fs(f pn \<mapsto> csvLine header @ csvLine r))),
          quiet (snd (split_rec f L (csvLine header) (map csvLine rows)
               (Some (f pn)) (pn + 1) 1 (fs(f pn \<mapsto> csvLine header @ csvLine r)))))"
      using Cons.IH[OF ra w, where parts = "parts @ [f pn]"
          and pn = "pn + 1" and fs = "fs(f pn \<mapsto> csvLine header @ csvLine r)"]
      by (auto simp del: fun_upd_apply)
    show ?thesis
      apply (subst SplitCsvFile_loop.simps)
      apply (simp add: rr True NewCsvFile_quiet csvWrite_new_quiet csvWrite_new2_quiet
               case_prod_beta del: fun_upd_apply)
      apply (rule exI[of _ wo])
      apply (insert ih)
      apply (simp del: fun_upd_apply)
      done
  next
    case False
    then obtain wr where wr: "writer = Some wr" "cw_valueProcessors wr = []"
      using Cons.prems by auto
    let ?wr = "wr\<lparr>cw_count := cw_count wr + 1\<rparr>"
    let ?fs = "case fs (cw_path wr) of None \<Rightarrow> fs | Some c \<Rightarrow> fs(cw_path wr \<mapsto> c @ csvLine r)"
    have w: "cnt + 1 = L \<or> (\<exists>wr'. Some ?wr = Some wr' \<and> cw_valueProcessors wr' = [])"
      using wr by simp
    obtain wo where ih: "SplitCsvFile_loop L f header rd' None (Some ?wr) parts pn (cnt + 1) (quiet ?fs) =
        Returns (None, wo,
          parts @ fst (split_rec f L (csvLine header) (map csvLine rows)
               (Some (cw_path wr)) pn (cnt + 1) ?fs),
          quiet (snd (split_rec f L (csvLine header) (map csvLine rows)
               (Some (cw_path wr)) pn (cnt + 1) ?fs)))"
      using Cons.IH[OF ra w, where parts = parts and pn = pn and fs = ?fs]
      by (auto simp del: fun_upd_apply)
    show ?thesis
      apply (subst SplitCsvFile_loop.simps)
      apply (simp add: rr False wr csvWrite_quiet del: fun_upd_apply)
      apply (rule exI[of _ wo])
      apply (insert ih)
      apply (simp del: fun_upd_apply)
      done
  qed
qed

lemma SplitCsvFile_quiet:
  assumes "0 < L" and "fs input = Some content"
    and "csvReadAll (csvOn content) = (header # rows, e)"
  shows "SplitCsvFile input L f (quiet fs) =
     Returns ((part_paths f 1 (length (chunks (nat L) rows)), None),
              quiet (write_parts f (csvLine header) 1
                       (map (map csvLine) (chunks (nat L) rows)) fs))"
proof -
  obtain rd' where rr: "csvFileReader_Read (csvOn content) = ((header, None), rd')"
      and ra: "csvReadAll rd' = (rows, e)"
    using csvReadAll_Cons[OF assms(3)] by blast
  have w: "L = L \<or> (\<exists>wr. (None :: csvFileWriter option) = Some wr \<and> cw_valueProcessors wr = [])"
    by simp
  obtain wo where lp: "SplitCsvFile_loop L f header rd' None None [] 1 L (quiet fs) =
      Returns (None, wo,
        fst (split_rec f L (csvLine header) (map csvLine rows) None 1 L fs),
        quiet (snd (split_rec f L (csvLine header) (map csvLine rows) None 1 L fs)))"
    using SplitCsvFile_loop_quiet[OF ra w, where parts = "[]" and pn = 1 and fs = fs and f = f
        and header = header]
    by (auto simp del: fun_upd_apply)
  show ?thesis
    using assms(1)
    by (simp add: SplitCsvFile_def OpenCsvFile_quiet[where fs = fs, OF assms(2)] rr lp
          split_rec_init chunks_map)
qed

lemma JoinCsvFiles_read_quiet:
  assumes "csvReadAll rd = (rows, e)"
    and "cw_valueProcessors wr = []"
    and "fs (cw_path wr) = Some c"
  shows "\<exists>wr'. cw_path wr' = cw_path wr \<and> cw_valueProcessors wr' = [] \<and>
     JoinCsvFiles_read out rd wr (quiet fs) =
       (Inr wr', quiet (fs(cw_path wr \<mapsto> c @ csvLines rows)))"
  using assms
proof (induction rows arbitrary: rd wr fs c)
  case Nil
  then obtain row rd' where "csvFileReader_Read rd = ((row, Some e), rd')"
    using csvReadAll_Nil by blast
  then show ?case
    using Nil.prems
    by (subst JoinCsvFiles_read.simps) (simp add: map_upd_triv del: fun_upd_apply)
next
  case (Cons r rows)
  obtain rd' where rr: "csvFileReader_Read rd = ((r, None), rd')" and ra: "csvReadAll rd' = (rows, e)"
    using csvReadAll_Cons[OF Cons.prems(1)] by blast
  let ?wr = "wr\<lparr>cw_count := cw_count wr + 1\<rparr>"
  let ?fs = "fs(cw_path wr \<mapsto> c @ csvLine r)"
  have c': "?fs (cw_path ?wr) = Some (c @ csvLine r)" by simp
  have v': "cw_valueProcessors ?wr = []" using Cons.prems by simp
  have wq: "csvFileWriter_Write wr r (quiet fs) = (None, ?wr, quiet ?fs)"
    using Cons.prems by (simp add: csvWrite_quiet)
  obtain wr' where ih: "cw_path wr' = cw_path ?wr" "cw_valueProcessors wr' = []"
      "JoinCsvFiles_read out rd' ?wr (quiet ?fs) =
         (Inr wr', quiet (?fs(cw_path ?wr \<mapsto> (c @ csvLine r) @ csvLines rows)))"
    using Cons.IH[where fs = ?fs and wr = ?wr and rd = rd' and c = "c @ csvLine r", OF ra v' c']
    by blast
  have e: "?fs(cw_path ?wr \<mapsto> (c @ csvLine r) @ csvLines rows)
           = fs(cw_path wr \<mapsto> c @ csvLines (r # rows))"
    by (simp add: csvLines_Cons)
  show ?case
    apply (subst JoinCsvFiles_read.simps)
    apply (simp only: rr wq prod.case option.case)
    apply (rule exI[of _ wr'])
    using ih e apply simp
    done
qed

lemma csvHolds_other:
  "p \<noteq> q \<Longrightarrow> csvHolds (fs(q \<mapsto> c)) p rows = csvHolds fs p rows"
  by (simp add: csvHolds_def)

lemma csvHolds_open:
  assumes "csvHolds fs p (h # rows)"
  shows "\<exists>content rd'. fs p = Some content \<and>
           csvFileReader_Read (csvOn content) = ((h, None), rd') \<and>
           fst (csvReadAll rd') = rows"
proof -
  obtain content where c: "fs p = Some content" "fst (csvReadAll (csvOn content)) = h # rows"
    using assms by (auto simp add: csvHolds_def split: option.splits)
  obtain e where "csvReadAll (csvOn content) = (h # rows, e)"
    using c(2) by (cases "csvReadAll (csvOn content)") simp
  then obtain rd' where "csvFileReader_Read (csvOn content) = ((h, None), rd')"
      "csvReadAll rd' = (rows, e)"
    using csvReadAll_Cons by blast
  then show ?thesis using c(1) by auto
qed

lemma JoinCsvFiles_parts_later_quiet:
  assumes "\<forall>(p, rows) \<in> set ps. p \<noteq> cw_path wr \<and> rows \<noteq> [] \<and> csvHolds fs p rows"
    and "cw_valueProcessors wr = []" and "fs (cw_path wr) = Some c" and "0 < i"
  shows "JoinCsvFiles_parts out wr i (map fst ps) (quiet fs) =
     (None, quiet (fs(cw_path wr \<mapsto> c @ csvLines (concat (map (tl \<circ> snd) ps)))))"
  using assms
proof (induction ps arbitrary: wr fs c i)
  case Nil
  then show ?case by (simp add: map_upd_triv del: fun_upd_apply)
next
  case (Cons a ps)
  obtain p rows0 where a: "a = (p, rows0)" by (cases a)
  have p0: "p \<noteq> cw_path wr" "rows0 \<noteq> []" "csvHolds fs p rows0"
    using Cons.prems(1) a by auto
  obtain h rows where r0: "rows0 = h # rows" using p0(2) by (cases rows0) auto
  obtain content rd' where op: "fs p = Some content"
      "csvFileReader_Read (csvOn content) = ((h, None), rd')" "fst (csvReadAll rd') = rows"
    using csvHolds_open[where fs = fs and p = p and h = h and rows = rows] p0(3) r0 by blast
  obtain e where ra: "csvReadAll rd' = (rows, e)"
    using op(3) by (cases "csvReadAll rd'") simp
  let ?fs = "fs(cw_path wr \<mapsto> c @ csvLines rows)"
  obtain wr' where rd: "cw_path wr' = cw_path wr" "cw_valueProcessors wr' = []"
      "JoinCsvFiles_read out rd' wr (quiet fs) = (Inr wr', quiet ?fs)"
    using JoinCsvFiles_read_quiet[where fs = fs and wr = wr and rd = rd' and c = c
        and rows = rows and out = out and e = e, OF ra Cons.prems(2) Cons.prems(3)]
    by blast
  have rest: "\<forall>(p, rows) \<in> set ps. p \<noteq> cw_path wr' \<and> rows \<noteq> [] \<and> csvHolds ?fs p rows"
    using Cons.prems(1) rd(1) by (auto simp add: csvHolds_other)
  have c2: "?fs (cw_path wr') = Some (c @ csvLines rows)" using rd(1) by simp
  have i2: "0 < i + 1" by simp
  have ih: "JoinCsvFiles_parts out wr' (i + 1) (map fst ps) (quiet ?fs) =
     (None, quiet (?fs(cw_path wr \<mapsto> (c @ csvLines rows) @ csvLines (concat (map (tl \<circ> snd) ps)))))"
    using Cons.IH[where fs = ?fs and wr = wr' and c = "c @ csvLines rows" and i = "i + 1",
        OF rest rd(2) c2 i2] rd(1)
    by (simp add: comp_def del: fun_upd_apply)
  show ?case
    using Cons.prems(4) ih
    by (simp add: a r0 OpenCsvFile_quiet[where fs = fs, OF op(1)] op(2) rd(3) comp_def
          del: fun_upd_apply)
qed

lemma JoinCsvFiles_parts_first_quiet:
  assumes "\<forall>(p, rows) \<in> set ((p0, h # rows0) # ps). p \<noteq> cw_path wr \<and> rows \<noteq> [] \<and> csvHolds fs p rows"
    and "cw_valueProcessors wr = []" and "fs (cw_path wr) = Some c"
  shows "JoinCsvFiles_parts out wr 0 (p0 # map fst ps) (quiet fs) =
     (None, quiet (fs(cw_path wr \<mapsto>
        c @ csvLines (h # rows0) @ csvLines (concat (map (tl \<circ> snd) ps)))))"
proof -
  have p0: "p0 \<noteq> cw_path wr" "csvHolds fs p0 (h # rows0)"
    using assms(1) by auto
  obtain content rd' where op: "fs p0 = Some content"
      "csvFileReader_Read (csvOn content) = ((h, None), rd')" "fst (csvReadAll rd') = rows0"
    using csvHolds_open[where fs = fs and p = p0 and h = h and rows = rows0] p0(2) by blast
  obtain e where ra: "csvReadAll rd' = (rows0, e)"
    using op(3) by (cases "csvReadAll rd'") simp
  let ?wr1 = "wr\<lparr>cw_count := Suc (cw_count wr)\<rparr>"
  let ?fs1 = "fs(cw_path wr \<mapsto> c @ csvLine h)"
  have wq: "csvFileWriter_Write wr h (quiet fs) = (None, ?wr1, quiet ?fs1)"
    using assms(2,3) by (simp add: csvWrite_quiet)
  have v1: "cw_valueProcessors ?wr1 = []" using assms(2) by simp
  have c1: "?fs1 (cw_path ?wr1) = Some (c @ csvLine h)" by simp
  let ?fs = "fs(cw_path wr \<mapsto> c @ csvLines (h # rows0))"
  obtain wr' where rd: "cw_path wr' = cw_path wr" "cw_valueProcessors wr' = []"
      "JoinCsvFiles_read out rd' ?wr1 (quiet ?fs1) = (Inr wr', quiet ?fs)"
    using JoinCsvFiles_read_quiet[where fs = ?fs1 and wr = ?wr1 and rd = rd' and c = "c @ csvLine h"
        and rows = rows0 and out = out and e = e, OF ra v1 c1]
    by (auto simp add: csvLines_Cons simp del: fun_upd_apply)
  have rest: "\<forall>(p, rows) \<in> set ps. p \<noteq> cw_path wr' \<and> rows \<noteq> [] \<and> csvHolds ?fs p rows"
    using assms(1) rd(1) by (auto simp add: csvHolds_other)
  have c2: "?fs (cw_path wr') = Some (c @ csvLines (h # rows0))" using rd(1) by simp
  have i2: "0 < (0::nat) + 1" by simp
  have ih: "JoinCsvFiles_parts out wr' (0 + 1) (map fst ps) (quiet ?fs) =
     (None, quiet (?fs(cw_path wr \<mapsto> (c @ csvLines (h # rows0)) @ csvLines (concat (map (tl \<circ> snd) ps)))))"
    using JoinCsvFiles_parts_later_quiet[where fs = ?fs and wr = wr' and c = "c @ csvLines (h # rows0)"
        and i = "0 + 1" and ps = ps and out = out, OF rest rd(2) c2 i2] rd(1)
    by (simp add: comp_def del: fun_upd_apply)
  show ?thesis
    using ih
    by (simp add: OpenCsvFile_quiet[where fs = fs, OF op(1)] op(2) wq rd(3) comp_def
          del: fun_upd_apply)
qed

lemma JoinCsvFiles_quiet:
  assumes "\<forall>(p, rows) \<in> set ((p0, h # rows0) # ps). p \<noteq> out \<and> rows \<noteq> [] \<and> csvHolds fs p rows"
  shows "JoinCsvFiles out (p0 # map fst ps) (quiet fs) =
     (None, quiet (fs(out \<mapsto> csvLines (h # rows0) @ csvLines (concat (map (tl \<circ> snd) ps)))))"
proof -
  let ?fs = "fs(out \<mapsto> [])"
  let ?wr = "\<lparr>cw_path = out, cw_count = 0, cw_valueProcessors = []\<rparr>"
  have a: "\<forall>(p, rows) \<in> set ((p0, h # rows0) # ps). p \<noteq> cw_path ?wr \<and> rows \<noteq> [] \<and> csvHolds ?fs p rows"
    using assms by (auto simp add: csvHolds_other)
  have c2: "?fs (cw_path ?wr) = Some []" by simp
  have v2: "cw_valueProcessors ?wr = []" by simp
  have "JoinCsvFiles_parts out ?wr 0 (p0 # map fst ps) (quiet ?fs) =
     (None, quiet (?fs(out \<mapsto> [] @ csvLines (h # rows0) @ csvLines (concat (map (tl \<circ> snd) ps)))))"
    using JoinCsvFiles_parts_first_quiet[where fs = ?fs and c = "[]" and out = out and ps = ps
        and wr = ?wr and ?p0.0 = p0 and h = h and ?rows0.0 = rows0, OF a v2 c2]
    by (simp add: comp_def del: fun_upd_apply)
  then show ?thesis
    by (simp add: JoinCsvFiles_def NewCsvFile_quiet comp_def del: JoinCsvFiles_parts.simps)
qed

lemma JoinCsvFiles_none_quiet:
  "JoinCsvFiles out [] (quiet fs) = (None, quiet (fs(out \<mapsto> [])))"
  by (simp add: JoinCsvFiles_def NewCsvFile_quiet)

subsection \<open>Chunks\<close>

lemma chunks_step: "0 < n \<Longrightarrow> xs \<noteq> [] \<Longrightarrow> chunks n xs = take n xs # chunks n (drop n xs)"
  by (subst chunks.simps) simp

lemma chunks_lengths:
  "0 < n \<Longrightarrow>
   map length (chunks n xs) =
     replicate (length xs div n) n @ (if length xs mod n = 0 then [] else [length xs mod n])"
proof (induction n xs rule: chunks.induct)
  case (1 n xs)
  show ?case
  proof (cases "xs = []")
    case True
    then show ?thesis by simp
  next
    case False
    have ih: "map length (chunks n (drop n xs)) =
        replicate (length (drop n xs) div n) n
          @ (if length (drop n xs) mod n = 0 then [] else [length (drop n xs) mod n])"
      using "1.IH" "1.prems" False by simp
    show ?thesis
    proof (cases "n \<le> length xs")
      case True
      then have d: "length xs div n = Suc ((length xs - n) div n)"
        using "1.prems" True by (simp add: le_div_geq)
      have m: "(length xs - n) mod n = length xs mod n"
        using True by (simp add: le_mod_geq)
      show ?thesis
        using True ih by (simp add: chunks_step[OF "1.prems" False] d m min_def)
    next
      case F: False
      then have "drop n xs = []" by simp
      then show ?thesis
        using F False by (simp add: chunks_step[OF "1.prems" False])
    qed
  qed
qed

lemma chunks_nth:
  "0 < n \<Longrightarrow> i < length (chunks n xs) \<Longrightarrow> chunks n xs ! i = take n (drop (i * n) xs)"
proof (induction i arbitrary: xs)
  case 0
  then have "xs \<noteq> []" by auto
  then show ?case using 0 by (simp add: chunks_step)
next
  case (Suc i)
  then have ne: "xs \<noteq> []" by auto
  have "i < length (chunks n (drop n xs))"
    using Suc.prems by (simp add: chunks_step[OF Suc.prems(1) ne])
  then have "chunks n (drop n xs) ! i = take n (drop (i * n) (drop n xs))"
    using Suc.IH Suc.prems(1) by blast
  then show ?case
    by (simp add: chunks_step[OF Suc.prems(1) ne] add.commute)
qed

subsection \<open>The parts that Split leaves, as Join finds them\<close>

lemma zip_parts:
  "(p, c) \<in> set (zip (part_paths f pn (length cs)) cs) \<Longrightarrow>
   \<exists>i < length cs. p = f (pn + int i) \<and> c = cs ! i"
  by (auto simp add: in_set_zip part_paths_def)

lemma length_part_paths [simp]: "length (part_paths f pn k) = k"
  by (simp add: part_paths_def)

lemma parts_hold:
  assumes "distinct (part_paths f pn (length cs))"
    and "(p, c) \<in> set (zip (part_paths f pn (length cs)) cs)"
  shows "write_parts f hdr pn (map (map enc) cs) fs p = Some (hdr @ concat (map enc c))"
proof -
  obtain i where i: "i < length cs" "p = f (pn + int i)" "c = cs ! i"
    using zip_parts[OF assms(2)] by blast
  have d: "distinct (part_paths f pn (length (map (map enc) cs)))"
    using assms(1) by simp
  have l: "i < length (map (map enc) cs)" using i(1) by simp
  show ?thesis
    using write_parts_nth[OF d l, where hdr = hdr and fs = fs] i by simp
qed

lemma JoinJsonFiles_of_parts:
  assumes "0 < n" and "\<forall>r \<in> set recs. nl \<notin> set r"
    and "distinct (part_paths f pn (length (chunks n recs)))"
    and "out \<notin> set (part_paths f pn (length (chunks n recs)))"
  shows "JoinJsonFiles out (part_paths f pn (length (chunks n recs)))
           (quiet (write_parts f [] pn (map (map (\<lambda>r. r @ [nl])) (chunks n recs)) fs)) =
         (None, quiet ((write_parts f [] pn (map (map (\<lambda>r. r @ [nl])) (chunks n recs)) fs)
                         (out \<mapsto> jsonLines recs)))"
proof -
  let ?cs = "chunks n recs"
  let ?P = "part_paths f pn (length ?cs)"
  let ?FS = "write_parts f [] pn (map (map (\<lambda>r. r @ [nl])) ?cs) fs"
  let ?ps = "zip ?P ?cs"
  have a: "\<forall>(p, rs) \<in> set ?ps. p \<noteq> out \<and> ?FS p = Some (jsonLines rs) \<and> (\<forall>r \<in> set rs. nl \<notin> set r)"
  proof (clarify, intro conjI)
    fix p rs assume m: "(p, rs) \<in> set ?ps"
    then have "p \<in> set ?P" by (rule set_zip_leftD)
    then show "p \<noteq> out" using assms(4) by auto
    show "?FS p = Some (jsonLines rs)"
      using parts_hold[OF assms(3) m, where hdr = "[]" and enc = "\<lambda>r. r @ [nl]" and fs = fs]
      by (simp add: jsonLines_def)
    have "rs \<in> set ?cs" using m by (rule set_zip_rightD)
    then show "\<forall>r \<in> set rs. nl \<notin> set r"
      using chunks_subset assms(2) by blast
  qed
  have f: "map fst ?ps = ?P" by (simp add: map_fst_zip)
  have s: "concat (map snd ?ps) = recs"
    by (simp add: map_snd_zip concat_chunks[OF assms(1)])
  show ?thesis
    using JoinJsonFiles_quiet[where ps = ?ps and out = out and fs = ?FS, OF a]
    by (simp only: f s)
qed

lemma JoinProtoFiles_of_parts:
  assumes "0 < n" and "list_all (stable um mar) blobs"
    and "distinct (part_paths f pn (length (chunks n blobs)))"
    and "out \<notin> set (part_paths f pn (length (chunks n blobs)))"
  shows "JoinProtoFiles um mar out (part_paths f pn (length (chunks n blobs)))
           (quiet (write_parts f [] pn (map (map frame) (chunks n blobs)) fs)) =
         (None, quiet ((write_parts f [] pn (map (map frame) (chunks n blobs)) fs)
                         (out \<mapsto> frames blobs)))"
proof -
  let ?cs = "chunks n blobs"
  let ?P = "part_paths f pn (length ?cs)"
  let ?FS = "write_parts f [] pn (map (map frame) ?cs) fs"
  let ?ps = "zip ?P ?cs"
  have a: "\<forall>(p, bs) \<in> set ?ps. p \<noteq> out \<and> ?FS p = Some (frames bs) \<and> list_all (stable um mar) bs"
  proof (clarify, intro conjI)
    fix p bs assume m: "(p, bs) \<in> set ?ps"
    then have "p \<in> set ?P" by (rule set_zip_leftD)
    then show "p \<noteq> out" using assms(4) by auto
    show "?FS p = Some (frames bs)"
      using parts_hold[OF assms(3) m, where hdr = "[]" and enc = frame and fs = fs]
      by (simp add: frames_def)
    have "bs \<in> set ?cs" using m by (rule set_zip_rightD)
    then have "set bs \<subseteq> set blobs" by (rule chunks_subset)
    then show "list_all (stable um mar) bs"
      using assms(2) by (auto simp add: list_all_iff)
  qed
  have f: "map fst ?ps = ?P" by (simp add: map_fst_zip)
  have s: "concat (map snd ?ps) = blobs"
    by (simp add: map_snd_zip concat_chunks[OF assms(1)])
  show ?thesis
    using JoinProtoFiles_quiet[where ps = ?ps and out = out and fs = ?FS and um = um
        and mar = mar, OF a]
    by (simp only: f s)
qed

lemma JoinCsvFiles_of_parts:
  assumes "0 < n" and "rows \<noteq> []"
    and "list_all (\<lambda>c. reads_back (h # c)) (chunks n rows)"
    and "distinct (part_paths f pn (length (chunks n rows)))"
    and "out \<notin> set (part_paths f pn (length (chunks n rows)))"
  shows "JoinCsvFiles out (part_paths f pn (length (chunks n rows)))
           (quiet (write_parts f (csvLine h) pn (map (map csvLine) (chunks n rows)) fs)) =
         (None, quiet ((write_parts f (csvLine h) pn (map (map csvLine) (chunks n rows)) fs)
                         (out \<mapsto> csvLines (h # rows))))"
proof -
  let ?cs = "chunks n rows"
  let ?P = "part_paths f pn (length ?cs)"
  let ?FS = "write_parts f (csvLine h) pn (map (map csvLine) ?cs) fs"
  obtain c0 cs' where cs: "?cs = c0 # cs'"
    using assms(1,2) by (cases rows) (auto simp add: chunks_Cons)
  let ?P' = "part_paths f (pn + 1) (length cs')"
  let ?ps = "zip ?P' (map ((#) h) cs')"
  have P: "?P = f pn # ?P'" by (simp add: cs part_paths_Suc)
  have all: "p \<noteq> out \<and> csvHolds ?FS p (h # c)" if m: "(p, c) \<in> set (zip ?P ?cs)" for p c
  proof
    have "p \<in> set ?P" using m by (rule set_zip_leftD)
    then show "p \<noteq> out" using assms(5) by auto
    have fsp: "?FS p = Some (csvLines (h # c))"
      using parts_hold[OF assms(4) m, where hdr = "csvLine h" and enc = csvLine and fs = fs]
      by (simp add: csvLines_def)
    have "c \<in> set ?cs" using m by (rule set_zip_rightD)
    then have "reads_back (h # c)" using assms(3) by (auto simp add: list_all_iff)
    then show "csvHolds ?FS p (h # c)"
      by (simp add: csvHolds_def fsp reads_back_def)
  qed
  have a: "\<forall>(p, rs) \<in> set ((f pn, h # c0) # ?ps). p \<noteq> out \<and> rs \<noteq> [] \<and> csvHolds ?FS p rs"
  proof (clarify)
    fix p rs assume m: "(p, rs) \<in> set ((f pn, h # c0) # ?ps)"
    have "\<exists>c. rs = h # c \<and> (p, c) \<in> set (zip ?P ?cs)"
    proof (cases "(p, rs) = (f pn, h # c0)")
      case True
      then show ?thesis by (simp add: P) (simp add: cs)
    next
      case False
      then have "(p, rs) \<in> set ?ps" using m by auto
      then obtain c where "rs = h # c" "(p, c) \<in> set (zip ?P' cs')"
        by (auto simp add: zip_map2)
      then show ?thesis by (simp add: P) (simp add: cs)
    qed
    then show "p \<noteq> out \<and> rs \<noteq> [] \<and> csvHolds ?FS p rs"
      using all by auto
  qed
  have f: "f pn # map fst ?ps = ?P" by (simp add: P map_fst_zip)
  have t: "map (tl \<circ> snd) ?ps = cs'"
  proof -
    have "map snd ?ps = map ((#) h) cs'" by (simp add: map_snd_zip)
    then have "map tl (map snd ?ps) = map tl (map ((#) h) cs')" by (rule arg_cong)
    also have "\<dots> = cs'" by (simp add: comp_def)
    finally show ?thesis by (simp only: map_map)
  qed
  have s: "csvLines (h # c0) @ csvLines (concat (map (tl \<circ> snd) ?ps)) = csvLines (h # rows)"
  proof -
    have "rows = c0 @ concat cs'"
      using concat_chunks[OF assms(1), of rows] by (simp add: cs)
    then have "csvLines (h # c0) @ csvLines (concat cs') = csvLines (h # rows)"
      by (simp add: csvLines_def)
    then show ?thesis by (simp only: t)
  qed
  show ?thesis
    using JoinCsvFiles_quiet[where ps = ?ps and out = out and fs = ?FS and ?p0.0 = "f pn"
        and h = h and ?rows0.0 = c0, OF a]
    by (simp only: f s)
qed

section \<open>Split of an empty input\<close>

text \<open>
  Claim C10. On an input file that holds no row at all, not even a header (only blank
  lines, or nothing), \<^verbatim>\<open>SplitCsvFile\<close> returns no parts and the end-of-stream value
  \<^verbatim>\<open>io.EOF\<close> itself as its error: the read of the header fails and its error is returned
  as it is. \<^verbatim>\<open>SplitJsonFile\<close> and \<^verbatim>\<open>SplitProtoFile\<close> on an empty input file return no
  parts and a nil error. No file is created or changed.
\<close>

theorem C10_split_of_empty_input:
  "(fs input = Some content \<and> csvRecord content = None \<longrightarrow>
      SplitCsvFile input L f (quiet fs) = Returns (([], Some EOF), quiet fs))
   \<and> (fs input = Some [] \<longrightarrow>
      SplitJsonFile input L f (quiet fs) = Returns (([], None), quiet fs)
      \<and> SplitProtoFile um mar input L f (quiet fs) = Returns (([], None), quiet fs))"
proof (intro conjI impI)
  assume a: "fs input = Some content \<and> csvRecord content = None"
  show "SplitCsvFile input L f (quiet fs) = Returns (([], Some EOF), quiet fs)"
    using a
    by (simp add: SplitCsvFile_def OpenCsvFile_quiet[where fs = fs and content = content]
          csvOn_def csvFileReader_Read_def csvRead_def)
next
  assume a: "fs input = Some []"
  have f: "final \<lparr>pending = [], final = EOF\<rparr> = EOF" by simp
  show "SplitJsonFile input L f (quiet fs) = Returns (([], None), quiet fs)"
    using a
    by (simp add: SplitJsonFile_def OpenJsonFile_quiet[where fs = fs and content = "[]"]
          SplitJsonFile_loop.simps jsonFileReader_ReadRaw_def ReadBytes_def Split_finish_def)
  show "SplitProtoFile um mar input L f (quiet fs) = Returns (([], None), quiet fs)"
    using a
    by (simp add: SplitProtoFile_def OpenProtoFile_quiet[where fs = fs and content = "[]"]
          SplitProtoFile_loop.simps protoFileReader_ReadTo_def ReadFull_def Split_finish_def)
qed

theorem C10_split_of_empty_input_witness:
  "SplitCsvFile ''in'' 10 partName (quiet [''in'' \<mapsto> []])
     = Returns (([], Some EOF), quiet [''in'' \<mapsto> []])
   \<and> SplitJsonFile ''in'' 10 partName (quiet [''in'' \<mapsto> []])
     = Returns (([], None), quiet [''in'' \<mapsto> []])
   \<and> SplitProtoFile idMarshal idMarshal ''in'' 10 partName (quiet [''in'' \<mapsto> []])
     = Returns (([], None), quiet [''in'' \<mapsto> []])"
  using C10_split_of_empty_input
    [of "[''in'' \<mapsto> []]" "''in''" "[]" 10 partName idMarshal idMarshal]
  by simp

section \<open>Split partitions the record sequence\<close>

lemma csvReadAll_example:
  "csvReadAll (csvOn (''h'' @ [nl] @ ''a'' @ [nl] @ ''b'' @ [nl] @ ''c'' @ [nl]))
     = ([[''h''], [''a''], [''b''], [''c'']], EOF)"
  apply (simp add: csvOn_def)
  apply ((subst csvReadAll.simps, simp add: csvFileReader_Read_def csvRead_def)+)
  done

text \<open>
  Claim C5. Let the limit be positive and let nothing fail in the environment. On an input
  that is the encoding of a record sequence, each Split function returns the paths that the
  part namer gives for the indices 1, 2, ... up to the number of chunks, with a nil error,
  and leaves the files as \<open>write_parts\<close> describes: the \<open>i\<close>-th path holds the encoded
  records of the \<open>i\<close>-th chunk, for the row format after the header row, which is written
  at the head of every part and is not counted. The chunks are consecutive and do not
  overlap: chunk \<open>i\<close> is the \<open>L\<close> records from position \<open>i * L\<close> on, together they are the
  record sequence, there are \<open>N div L\<close> chunks of \<open>L\<close> records and, when \<open>L\<close> does not
  divide \<open>N\<close>, a last one of \<open>N mod L\<close> records. When the part paths are distinct, each
  holds exactly its chunk and every other path is unchanged.

  The input of the object format is a sequence of lines, each ended by a line feed; that of
  the message format a sequence of frames of messages that the marshaler decodes and encodes
  back; that of the row format any bytes, the header and the rows being what the row reader
  yields from them.
\<close>

theorem C5_split_writes_consecutive_chunks:
  assumes "0 < L"
  shows
    "(fs input = Some (jsonLines recs) \<and> (\<forall>r \<in> set recs. nl \<notin> set r)
        \<and> input \<notin> set (part_paths f 1 (length (chunks (nat L) recs))) \<longrightarrow>
      SplitJsonFile input L f (quiet fs) =
        Returns ((part_paths f 1 (length (chunks (nat L) recs)), None),
                 quiet (write_parts f [] 1
                          (map (map (\<lambda>r. r @ [nl])) (chunks (nat L) recs)) fs)))
   \<and> (fs input = Some (frames blobs) \<and> list_all (stable um mar) blobs
        \<and> input \<notin> set (part_paths f 1 (length (chunks (nat L) blobs))) \<longrightarrow>
      SplitProtoFile um mar input L f (quiet fs) =
        Returns ((part_paths f 1 (length (chunks (nat L) blobs)), None),
                 quiet (write_parts f [] 1 (map (map frame) (chunks (nat L) blobs)) fs)))
   \<and> (fs input = Some content \<and> fst (csvReadAll (csvOn content)) = header # rows
        \<and> input \<notin> set (part_paths f 1 (length (chunks (nat L) rows))) \<longrightarrow>
      SplitCsvFile input L f (quiet fs) =
        Returns ((part_paths f 1 (length (chunks (nat L) rows)), None),
                 quiet (write_parts f (csvLine header) 1
                          (map (map csvLine) (chunks (nat L) rows)) fs)))
   \<and> concat (chunks (nat L) xs) = xs
   \<and> (\<forall>i < length (chunks (nat L) xs).
         chunks (nat L) xs ! i = take (nat L) (drop (i * nat L) xs))
   \<and> map length (chunks (nat L) xs) =
         replicate (length xs div nat L) (nat L)
           @ (if length xs mod nat L = 0 then [] else [length xs mod nat L])
   \<and> (L = 10 \<and> length xs = 100 \<longrightarrow> map length (chunks (nat L) xs) = replicate 10 10)
   \<and> (L = 10 \<and> length xs = 95 \<longrightarrow> map length (chunks (nat L) xs) = replicate 9 10 @ [5])
   \<and> (L = 10 \<and> length xs = 5 \<longrightarrow> map length (chunks (nat L) xs) = [5])
   \<and> (distinct (part_paths f 1 (length cs)) \<longrightarrow>
         (\<forall>i < length cs. write_parts f hdr 1 cs fs (f (1 + int i)) = Some (hdr @ concat (cs ! i)))
         \<and> (\<forall>p. p \<notin> set (part_paths f 1 (length cs)) \<longrightarrow> write_parts f hdr 1 cs fs p = fs p))"
proof -
  have n: "0 < nat L" using assms by simp
  have j: "fs input = Some (jsonLines recs) \<and> (\<forall>r \<in> set recs. nl \<notin> set r)
        \<and> input \<notin> set (part_paths f 1 (length (chunks (nat L) recs))) \<longrightarrow>
      SplitJsonFile input L f (quiet fs) =
        Returns ((part_paths f 1 (length (chunks (nat L) recs)), None),
                 quiet (write_parts f [] 1
                          (map (map (\<lambda>r. r @ [nl])) (chunks (nat L) recs)) fs))"
    using SplitJsonFile_quiet[OF assms, where fs = fs and input = input and recs = recs and f = f]
    by blast
  have p: "fs input = Some (frames blobs) \<and> list_all (stable um mar) blobs
        \<and> input \<notin> set (part_paths f 1 (length (chunks (nat L) blobs))) \<longrightarrow>
      SplitProtoFile um mar input L f (quiet fs) =
        Returns ((part_paths f 1 (length (chunks (nat L) blobs)), None),
                 quiet (write_parts f [] 1 (map (map frame) (chunks (nat L) blobs)) fs))"
    using SplitProtoFile_quiet[OF assms, where fs = fs and input = input and blobs = blobs
        and f = f and um = um and mar = mar]
    by blast
  have c: "fs input = Some content \<and> fst (csvReadAll (csvOn content)) = header # rows
        \<and> input \<notin> set (part_paths f 1 (length (chunks (nat L) rows))) \<longrightarrow>
      SplitCsvFile input L f (quiet fs) =
        Returns ((part_paths f 1 (length (chunks (nat L) rows)), None),
                 quiet (write_parts f (csvLine header) 1
                          (map (map csvLine) (chunks (nat L) rows)) fs))"
  proof (intro impI)
    assume a: "fs input = Some content \<and> fst (csvReadAll (csvOn content)) = header # rows
        \<and> input \<notin> set (part_paths f 1 (length (chunks (nat L) rows)))"
    obtain e where "csvReadAll (csvOn content) = (header # rows, e)"
      using a by (cases "csvReadAll (csvOn content)") simp
    then show "SplitCsvFile input L f (quiet fs) =
        Returns ((part_paths f 1 (length (chunks (nat L) rows)), None),
                 quiet (write_parts f (csvLine header) 1
                          (map (map csvLine) (chunks (nat L) rows)) fs))"
      using SplitCsvFile_quiet[OF assms, where fs = fs and input = input and content = content
          and header = header and rows = rows and e = e and f = f] a
      by blast
  qed
  have k1: "concat (chunks (nat L) xs) = xs"
    using concat_chunks[OF n] .
  have k2: "\<forall>i < length (chunks (nat L) xs).
         chunks (nat L) xs ! i = take (nat L) (drop (i * nat L) xs)"
    using chunks_nth[OF n] by blast
  have k3: "map length (chunks (nat L) xs) =
         replicate (length xs div nat L) (nat L)
           @ (if length xs mod nat L = 0 then [] else [length xs mod nat L])"
    using chunks_lengths[OF n] .
  have w: "distinct (part_paths f 1 (length cs)) \<longrightarrow>
         (\<forall>i < length cs. write_parts f hdr 1 cs fs (f (1 + int i)) = Some (hdr @ concat (cs ! i)))
         \<and> (\<forall>p. p \<notin> set (part_paths f 1 (length cs)) \<longrightarrow> write_parts f hdr 1 cs fs p = fs p)"
    using write_parts_nth[where f = f and pn = 1 and cs = cs and hdr = hdr and fs = fs]
      write_parts_other[where f = f and pn = 1 and cs = cs and hdr = hdr and fs = fs]
    by blast
  have n1: "L = 10 \<and> length xs = 100 \<longrightarrow> map length (chunks (nat L) xs) = replicate 10 10"
    using k3 by auto
  have n2: "L = 10 \<and> length xs = 95 \<longrightarrow> map length (chunks (nat L) xs) = replicate 9 10 @ [5]"
    using k3 by auto
  have n3: "L = 10 \<and> length xs = 5 \<longrightarrow> map length (chunks (nat L) xs) = [5]"
    using k3 by auto
  show ?thesis
    using j p c k1 k2 k3 n1 n2 n3 w by blast
qed

theorem C5_split_witness:
  "SplitJsonFile ''in'' 2 partName
      (quiet [''in'' \<mapsto> jsonLines [''a'', ''b'', ''c'']])
     = Returns (([partName 1, partName 2], None),
         quiet [''in'' \<mapsto> jsonLines [''a'', ''b'', ''c''],
                partName 1 \<mapsto> jsonLines [''a'', ''b''], partName 2 \<mapsto> jsonLines [''c'']])
   \<and> SplitProtoFile idMarshal idMarshal ''in'' 2 partName
      (quiet [''in'' \<mapsto> frames [''a'', ''b'', ''c'']])
     = Returns (([partName 1, partName 2], None),
         quiet [''in'' \<mapsto> frames [''a'', ''b'', ''c''],
                partName 1 \<mapsto> frames [''a'', ''b''], partName 2 \<mapsto> frames [''c'']])
   \<and> SplitCsvFile ''in'' 2 partName
      (quiet [''in'' \<mapsto> ''h'' @ [nl] @ ''a'' @ [nl] @ ''b'' @ [nl] @ ''c'' @ [nl]])
     = Returns (([partName 1, partName 2], None),
         quiet [''in'' \<mapsto> ''h'' @ [nl] @ ''a'' @ [nl] @ ''b'' @ [nl] @ ''c'' @ [nl],
                partName 1 \<mapsto> ''h'' @ [nl] @ ''a'' @ [nl] @ ''b'' @ [nl],
                partName 2 \<mapsto> ''h'' @ [nl] @ ''c'' @ [nl]])
   \<and> map length (chunks 10 (replicate 100 ''r'')) = replicate 10 10
   \<and> map length (chunks 10 (replicate 95 ''r'')) = replicate 9 10 @ [5]
   \<and> map length (chunks 10 (replicate 5 ''r'')) = [5]
   \<and> write_parts partName ''h'' 1 [[''a'', ''b''], [''c'']] Map.empty (partName 2) = Some ''hc''"
proof -
  have L2: "0 < (2::int)" and L10: "0 < (10::int)" and L1: "0 < (1::int)"
    by simp_all
  have ch: "chunks 2 [x, y, z] = [[x, y], [z]]" for x y z :: 'a
    by (simp add: chunks_Cons)
  have pp: "part_paths partName 1 (Suc (Suc 0)) = [partName 1, partName 2]"
    by (simp add: part_paths_Suc)
  have pn: "partName 1 = ''part1''" "partName 2 = ''part2''"
    by (simp_all add: partName_def decimal.simps)
  have j: "SplitJsonFile ''in'' 2 partName
      (quiet [''in'' \<mapsto> jsonLines [''a'', ''b'', ''c'']])
     = Returns (([partName 1, partName 2], None),
         quiet [''in'' \<mapsto> jsonLines [''a'', ''b'', ''c''],
                partName 1 \<mapsto> jsonLines [''a'', ''b''], partName 2 \<mapsto> jsonLines [''c'']])"
    using C5_split_writes_consecutive_chunks
      [OF L2, where fs = "[''in'' \<mapsto> jsonLines [''a'', ''b'', ''c'']]" and input = "''in''"
         and recs = "[''a'', ''b'', ''c'']" and f = partName, THEN conjunct1]
    by (simp add: ch pp pn jsonLines_def)
  have p: "SplitProtoFile idMarshal idMarshal ''in'' 2 partName
      (quiet [''in'' \<mapsto> frames [''a'', ''b'', ''c'']])
     = Returns (([partName 1, partName 2], None),
         quiet [''in'' \<mapsto> frames [''a'', ''b'', ''c''],
                partName 1 \<mapsto> frames [''a'', ''b''], partName 2 \<mapsto> frames [''c'']])"
    using C5_split_writes_consecutive_chunks
      [OF L2, where fs = "[''in'' \<mapsto> frames [''a'', ''b'', ''c'']]" and input = "''in''"
         and blobs = "[''a'', ''b'', ''c'']" and f = partName and um = idMarshal
         and mar = idMarshal, THEN conjunct2, THEN conjunct1]
    by (simp add: ch pp pn frames_def stable_def idMarshal_def)
  have c: "SplitCsvFile ''in'' 2 partName
      (quiet [''in'' \<mapsto> ''h'' @ [nl] @ ''a'' @ [nl] @ ''b'' @ [nl] @ ''c'' @ [nl]])
     = Returns (([partName 1, partName 2], None),
         quiet [''in'' \<mapsto> ''h'' @ [nl] @ ''a'' @ [nl] @ ''b'' @ [nl] @ ''c'' @ [nl],
                partName 1 \<mapsto> ''h'' @ [nl] @ ''a'' @ [nl] @ ''b'' @ [nl],
                partName 2 \<mapsto> ''h'' @ [nl] @ ''c'' @ [nl]])"
    using C5_split_writes_consecutive_chunks
      [OF L2, where fs = "[''in'' \<mapsto> ''h'' @ [nl] @ ''a'' @ [nl] @ ''b'' @ [nl] @ ''c'' @ [nl]]"
         and input = "''in''" and f = partName
         and content = "''h'' @ [nl] @ ''a'' @ [nl] @ ''b'' @ [nl] @ ''c'' @ [nl]"
         and header = "[''h'']" and rows = "[[''a''], [''b''], [''c'']]",
         THEN conjunct2, THEN conjunct2, THEN conjunct1]
      csvReadAll_example
    by (simp add: ch pp pn csvLine_def csvField_def fieldNeedsQuotes_def spaceRunes_def)
  have n1: "map length (chunks 10 (replicate 100 ''r'')) = replicate 10 10"
    using C5_split_writes_consecutive_chunks
      [OF L10, where xs = "replicate 100 ''r''",
         THEN conjunct2, THEN conjunct2, THEN conjunct2, THEN conjunct2, THEN conjunct2,
         THEN conjunct2, THEN conjunct1]
    by simp
  have n2: "map length (chunks 10 (replicate 95 ''r'')) = replicate 9 10 @ [5]"
    using C5_split_writes_consecutive_chunks
      [OF L10, where xs = "replicate 95 ''r''",
         THEN conjunct2, THEN conjunct2, THEN conjunct2, THEN conjunct2, THEN conjunct2,
         THEN conjunct2, THEN conjunct2, THEN conjunct1]
    by simp
  have n3: "map length (chunks 10 (replicate 5 ''r'')) = [5]"
    using C5_split_writes_consecutive_chunks
      [OF L10, where xs = "replicate 5 ''r''",
         THEN conjunct2, THEN conjunct2, THEN conjunct2, THEN conjunct2, THEN conjunct2,
         THEN conjunct2, THEN conjunct2, THEN conjunct2, THEN conjunct1]
    by simp
  have w: "write_parts partName ''h'' 1 [[''a'', ''b''], [''c'']] Map.empty (partName 2) = Some ''hc''"
  proof -
    have d: "distinct (part_paths partName 1 (length [[''a'', ''b''], [''c'']]))"
      by (simp add: pp pn)
    have "(1::nat) < length [[''a'', ''b''], [''c'']]" by simp
    then have "write_parts partName ''h'' 1 [[''a'', ''b''], [''c'']] Map.empty (partName (1 + int 1))
        = Some (''h'' @ concat ([[''a'', ''b''], [''c'']] ! 1))"
      using C5_split_writes_consecutive_chunks
        [OF L1, where fs = Map.empty and f = partName
           and cs = "[[''a'', ''b''], [''c'']]" and hdr = "''h''",
         THEN conjunct2, THEN conjunct2, THEN conjunct2, THEN conjunct2, THEN conjunct2,
         THEN conjunct2, THEN conjunct2, THEN conjunct2, THEN conjunct2] d
      by blast
    then show ?thesis by simp
  qed
  show ?thesis
    using j p c n1 n2 n3 w by blast
qed

end
